theory Spec2Isabelle
  imports Main
begin

section \<open>Text and character classes\<close>

text \<open>
  The script reads every file into a JavaScript string, a sequence of UTF-16 code units.
  A code unit is a natural number here (below 65536 in every string JavaScript can build);
  a text is a list of code units. \<open>js\<close> turns a literal of the source into a text.
\<close>

text \<open>
  Code units that are written as numbers below: 10 is the line feed, 32 the space,
  36 \<open>$\<close>, 39 the single quote, 44 the comma, 47 \<open>/\<close>, 105 \<open>i\<close>, 123 \<open>{\<close> and
  125 \<open>}\<close>.
\<close>

type_synonym str = "nat list"

definition js :: "string \<Rightarrow> str" where
  "js s = map of_char s"

text \<open>
  The regular expressions of the script carry no \<open>u\<close>, \<open>i\<close> or \<open>s\<close> flag, so a class
  is tested on one code unit: \<open>.\<close> is every code unit but the four line terminators,
  \<open>\s\<close> is white space and line terminators, a word character (for \<open>\b\<close>) is
  \<open>[A-Za-z0-9_]\<close>.
\<close>

definition isLineTerminator :: "nat \<Rightarrow> bool" where
  "isLineTerminator c = (c = 10 \<or> c = 13 \<or> c = 8232 \<or> c = 8233)"

definition isWhiteSpace :: "nat \<Rightarrow> bool" where
  "isWhiteSpace c =
     (c = 9 \<or> c = 11 \<or> c = 12 \<or> c = 32 \<or> c = 160 \<or> c = 5760
      \<or> (8192 \<le> c \<and> c \<le> 8202) \<or> c = 8239 \<or> c = 8287 \<or> c = 12288 \<or> c = 65279)"

definition isSpace :: "nat \<Rightarrow> bool" where
  "isSpace c = (isWhiteSpace c \<or> isLineTerminator c)"

definition isWordChar :: "nat \<Rightarrow> bool" where
  "isWordChar c =
     ((97 \<le> c \<and> c \<le> 122) \<or> (65 \<le> c \<and> c \<le> 90) \<or> (48 \<le> c \<and> c \<le> 57) \<or> c = 95)"

datatype cclass =
    Dot                 \<comment> \<open>\<open>.\<close>\<close>
  | Space               \<comment> \<open>\<open>\s\<close>\<close>
  | OneOf str           \<comment> \<open>\<open>[abc]\<close>\<close>
  | NoneOf str          \<comment> \<open>\<open>[^abc]\<close>\<close>

fun inClass :: "cclass \<Rightarrow> nat \<Rightarrow> bool" where
  "inClass Dot c = (\<not> isLineTerminator c)"
| "inClass Space c = isSpace c"
| "inClass (OneOf cs) c = (c \<in> set cs)"
| "inClass (NoneOf cs) c = (c \<notin> set cs)"

section \<open>Regular expressions as the script uses them\<close>

text \<open>
  The fragment of ECMAScript patterns that occurs in the script: literals, classes,
  concatenation, alternation, the greedy quantifiers \<open>*\<close>, \<open>+\<close>, \<open>?\<close>, the assertions
  \<open>^\<close> and \<open>$\<close> (every pattern has the \<open>m\<close> flag, so they are line assertions),
  \<open>\b\<close> and the positive lookahead \<open>(?=...)\<close>. The one capture group of each
  pattern, \<open>(\.js)?\<close>, is never referred to (see \<open>importPath\<close>), so a group is its body.
\<close>

datatype regex =
    Eps
  | Str str             \<comment> \<open>a run of literal characters\<close>
  | Cls cclass
  | Seq regex regex
  | Alt regex regex
  | Star regex          \<comment> \<open>\<open>r*\<close>, greedy\<close>
  | Opt regex           \<comment> \<open>\<open>r?\<close>, greedy\<close>
  | Bol                 \<comment> \<open>\<open>^\<close> with the \<open>m\<close> flag\<close>
  | Eol                 \<comment> \<open>\<open>$\<close> with the \<open>m\<close> flag\<close>
  | WordB               \<comment> \<open>\<open>\b\<close>\<close>
  | Look regex          \<comment> \<open>\<open>(?=r)\<close>\<close>

definition Plus :: "regex \<Rightarrow> regex" where
  "Plus r = Seq r (Star r)"

fun cat :: "regex list \<Rightarrow> regex" where
  "cat [] = Eps"
| "cat (r # rs) = Seq r (cat rs)"

text \<open>
  A position in the subject is the code unit before it (if any) and the rest of the
  subject from it on: \<open>^\<close> and \<open>\b\<close> look one code unit back, everything else looks
  forward.
\<close>

type_synonym pos = "nat option \<times> str"

fun advance :: "pos \<Rightarrow> nat \<Rightarrow> pos" where
  "advance (p, xs) 0 = (p, xs)"
| "advance (p, []) (Suc n) = (p, [])"
| "advance (p, x # xs) (Suc n) = advance (Some x, xs) n"

definition atBol :: "pos \<Rightarrow> bool" where
  "atBol q = (case fst q of None \<Rightarrow> True | Some c \<Rightarrow> isLineTerminator c)"

definition atEol :: "pos \<Rightarrow> bool" where
  "atEol q = (case snd q of [] \<Rightarrow> True | c # _ \<Rightarrow> isLineTerminator c)"

definition wordBefore :: "pos \<Rightarrow> bool" where
  "wordBefore q = (case fst q of None \<Rightarrow> False | Some c \<Rightarrow> isWordChar c)"

definition wordAfter :: "pos \<Rightarrow> bool" where
  "wordAfter q = (case snd q of [] \<Rightarrow> False | c # _ \<Rightarrow> isWordChar c)"

definition startsWith :: "str \<Rightarrow> str \<Rightarrow> bool" where
  "startsWith xs w = (take (length w) xs = w)"

text \<open>
  \<open>rmatch r q\<close> lists the positions at which a match of \<open>r\<close> that starts at \<open>q\<close> can
  end, in the order in which the backtracking matcher of ECMAScript tries them: the
  first element is the end of the match the engine reports. A starred body that
  matches the empty string ends the iteration (the engine rejects the empty iteration),
  which is the guard on the length in the equation of \<open>Star\<close>.
\<close>

function rmatch :: "regex \<Rightarrow> pos \<Rightarrow> pos list" where
  "rmatch Eps q = [q]"
| "rmatch (Str w) q = (if startsWith (snd q) w then [advance q (length w)] else [])"
| "rmatch (Cls k) q =
     (case snd q of [] \<Rightarrow> [] | c # cs \<Rightarrow> if inClass k c then [(Some c, cs)] else [])"
| "rmatch (Seq r1 r2) q = concat (map (\<lambda>q'. rmatch r2 q') (rmatch r1 q))"
| "rmatch (Alt r1 r2) q = rmatch r1 q @ rmatch r2 q"
| "rmatch (Star r) q =
     concat (map (\<lambda>q'. if length (snd q') < length (snd q) then rmatch (Star r) q' else [])
                 (rmatch r q)) @ [q]"
| "rmatch (Opt r) q = filter (\<lambda>q'. length (snd q') < length (snd q)) (rmatch r q) @ [q]"
| "rmatch Bol q = (if atBol q then [q] else [])"
| "rmatch Eol q = (if atEol q then [q] else [])"
| "rmatch WordB q = (if wordBefore q \<noteq> wordAfter q then [q] else [])"
| "rmatch (Look r) q = (if rmatch r q \<noteq> [] then [q] else [])"
  by pat_completeness auto
termination
  by (relation "measures [\<lambda>(r, q). size r, \<lambda>(r, q). length (snd q)]") auto

text \<open>
  \<open>RegExp.prototype.test\<close> on a pattern whose \<open>lastIndex\<close> is 0: the engine tries the
  start positions from left to right and answers whether one of them matches.
\<close>

fun search :: "regex \<Rightarrow> pos \<Rightarrow> bool" where
  "search r (p, []) = (rmatch r (p, []) \<noteq> [])"
| "search r (p, x # xs) = (rmatch r (p, x # xs) \<noteq> [] \<or> search r (Some x, xs))"

definition test :: "regex \<Rightarrow> str \<Rightarrow> bool" where
  "test r s = search r (None, s)"

text \<open>
  \<open>String.prototype.replace\<close> with a pattern that has the \<open>g\<close> flag and a
  replacement string without \<open>$\<close>: from the current position the engine looks for the
  leftmost start with a match, copies the text before it, puts the replacement for the
  reported (first) match and goes on behind the match; behind an empty match it steps
  one code unit forward, copying it.
\<close>

function replaceAll :: "regex \<Rightarrow> str \<Rightarrow> pos \<Rightarrow> str" where
  "replaceAll r rep (p, xs) =
     (case rmatch r (p, xs) of
        [] \<Rightarrow> (case xs of [] \<Rightarrow> [] | x # xs' \<Rightarrow> x # replaceAll r rep (Some x, xs'))
      | q # _ \<Rightarrow>
          if length (snd q) < length xs then rep @ replaceAll r rep q
          else (case xs of [] \<Rightarrow> rep | x # xs' \<Rightarrow> rep @ x # replaceAll r rep (Some x, xs')))"
  by pat_completeness auto
termination
  by (relation "measure (\<lambda>(r, rep, q). length (snd q))") auto

definition replace :: "str \<Rightarrow> regex \<Rightarrow> str \<Rightarrow> str" where
  "replace s r rep = replaceAll r rep (None, s)"

text \<open>\<open>String.prototype.includes\<close>: the needle occurs somewhere in the text.\<close>

fun includes_str :: "str \<Rightarrow> str \<Rightarrow> bool" where
  "includes_str [] w = (w = [])"
| "includes_str (x # xs) w = (startsWith (x # xs) w \<or> includes_str xs w)"

section \<open>The patterns of the script\<close>

text \<open>Pieces that the patterns share.\<close>

definition quote :: regex where
  "quote = Cls (OneOf (js '''\"''))"                 \<comment> \<open>\<open>['"]\<close>\<close>

definition spaces1 :: regex where
  "spaces1 = Plus (Cls Space)"                        \<comment> \<open>\<open>\s+\<close>\<close>

definition specifier :: "regex list" where
  \<comment> \<open>\<open>['"]\.\.?\/?.*\/_generated\/api(\.js)?['"]\<close>\<close>
  "specifier =
     [quote, Str (js ''.''), Opt (Str (js ''.'')), Opt (Str (js ''/'')), Star (Cls Dot),
      Str (js ''/_generated/api''), Opt (Str (js ''.js'')), quote]"

definition word :: "string \<Rightarrow> regex" where
  "word w = cat [WordB, Str (js w), WordB]"           \<comment> \<open>\<open>\bw\b\<close>\<close>

definition notBrace :: regex where
  "notBrace = Star (Cls (NoneOf (js ''}'')))"         \<comment> \<open>\<open>[^}]*\<close>\<close>

definition optType :: regex where
  "optType = Opt (cat [Str (js ''type''), spaces1])"  \<comment> \<open>\<open>(?:type\s+)?\<close>\<close>

text \<open>
  Lines 56 to 63, the two detection patterns (the same in both versions of the script):
  \<^verbatim>\<open>/^import\s+.*\{\s*internal\s*[,}].*from\s+['"]\.\.?\/?.*\/_generated\/api(\.js)?['"]/m\<close>
  and the same with \<open>api\<close> for \<open>internal\<close>.
\<close>

definition detectRegex :: "string \<Rightarrow> regex" where
  "detectRegex name =
     cat ([Bol, Str (js ''import''), spaces1, Star (Cls Dot), Str (js ''{''),
           Star (Cls Space), Str (js name), Star (Cls Space), Cls (OneOf (js '',}'')),
           Star (Cls Dot), Str (js ''from''), spaces1] @ specifier)"

definition hasInternalImport :: "str \<Rightarrow> bool" where
  "hasInternalImport content = test (detectRegex ''internal'') content"

definition hasApiImport :: "str \<Rightarrow> bool" where
  "hasApiImport content = test (detectRegex ''api'') content"

text \<open>
  Lines 82 to 89 of version two, \<open>sameLineCombinedRegex\<close> and \<open>combinedImportRegex\<close>
  (one pattern, without and with the \<open>g\<close> flag):
  \<^verbatim>\<open>/^import\s+(?:type\s+)?\{(?=[^}]*\binternal\b)(?=[^}]*\bapi\b)[^}]*\}\s+from\s+['"]\.\.?\/?.*\/_generated\/api(\.js)?['"];?.*$/m\<close>
\<close>

definition sameLineCombinedRegex :: regex where
  "sameLineCombinedRegex =
     cat ([Bol, Str (js ''import''), spaces1, optType, Str (js ''{''),
           Look (cat [notBrace, word ''internal'']), Look (cat [notBrace, word ''api'']),
           notBrace, Str (js ''}''), spaces1, Str (js ''from''), spaces1] @ specifier @
          [Opt (Str (js '';'')), Star (Cls Dot), Eol])"

definition combinedImportRegex :: regex where
  "combinedImportRegex = sameLineCombinedRegex"

text \<open>
  Lines 103 to 106, 130, 148 of version two, \<open>internalImportRegex\<close> and \<open>apiImportRegex\<close>:
  \<^verbatim>\<open>/^import\s+(?:type\s+)?\{[^}]*\binternal\b[^}]*\}\s+from\s+['"]\.\.?\/?.*\/_generated\/api(\.js)?['"];?.*$/gm\<close>
  and the same with \<open>api\<close> for \<open>internal\<close>.
\<close>

definition nameImportRegex :: "string \<Rightarrow> regex" where
  "nameImportRegex name =
     cat ([Bol, Str (js ''import''), spaces1, optType, Str (js ''{''),
           notBrace, word name, notBrace, Str (js ''}''), spaces1, Str (js ''from''), spaces1]
          @ specifier @ [Opt (Str (js '';'')), Star (Cls Dot), Eol])"

definition internalImportRegex :: regex where
  "internalImportRegex = nameImportRegex ''internal''"

definition apiImportRegex :: regex where
  "apiImportRegex = nameImportRegex ''api''"

section \<open>The substitution path and the generated declarations\<close>

text \<open>
  Lines 71 to 75. Every file the script visits lies in \<open>convexDir\<close> or in a directory
  \<open>depth\<close> levels below it, and the target is \<open>convexDir/_generated/api.js\<close>, so
  \<open>path.relative\<close> answers \<open>depth\<close> times \<open>..\<close> and then \<open>_generated/api.js\<close>, joined
  by the separator of the platform, which line 74 turns into \<open>/\<close>. No such path has a
  \<open>$\<close>, and neither have the template literals around it: the replacement strings
  are taken literally by \<open>String.prototype.replace\<close>.
\<close>

definition relPath :: "nat \<Rightarrow> str" where
  "relPath depth = concat (replicate depth (js ''../'')) @ js ''_generated/api.js''"

definition importPath :: "nat \<Rightarrow> str" where
  "importPath depth =
     (if startsWith (relPath depth) (js ''.'') then relPath depth else js ''./'' @ relPath depth)"

text \<open>The marker of line 50 and the three template literals, with the path spliced in.\<close>

definition marker :: str where
  "marker = js ''Bypass TS2589''"

definition combinedText :: "str \<Rightarrow> str" where
  "combinedText path =
     js ''// Bypass TS2589 by using require() which doesn't trigger type inference\<newline>// eslint-disable-next-line @typescript-eslint/no-explicit-any, @typescript-eslint/no-require-imports\<newline>const internal = require(''
     @ [39] @ path @ [39] @
     js '').internal as any;\<newline>// eslint-disable-next-line @typescript-eslint/no-explicit-any, @typescript-eslint/no-require-imports\<newline>const api = require(''
     @ [39] @ path @ [39] @ js '').api as any;''"

definition internalText :: "str \<Rightarrow> str" where
  "internalText path =
     js ''// Bypass TS2589 by using require() which doesn't trigger type inference\<newline>// eslint-disable-next-line @typescript-eslint/no-explicit-any, @typescript-eslint/no-require-imports\<newline>const internal = require(''
     @ [39] @ path @ [39] @ js '').internal as any;''"

definition apiText :: "str \<Rightarrow> str" where
  "apiText path =
     js ''// Bypass TS2589 by using require() which doesn't trigger type inference\<newline>// eslint-disable-next-line @typescript-eslint/no-explicit-any, @typescript-eslint/no-require-imports\<newline>const api = require(''
     @ [39] @ path @ [39] @ js '').api as any;''"

section \<open>Version two: the body of the loop over the files\<close>

datatype outcome = Fixed | SkippedAlreadyPatched | SkippedNoMatch

record result =
  newContent :: str
  modified :: bool
  outcome :: outcome

definition finish :: "str \<Rightarrow> bool \<Rightarrow> result" where
  \<comment> \<open>lines 165 to 172\<close>
  "finish new m =
     \<lparr>newContent = new, modified = m, outcome = (if m then Fixed else SkippedNoMatch)\<rparr>"

text \<open>
  Lines 46 to 172, one turn of the loop, for a file \<open>depth\<close> directories below
  \<open>convexDir\<close> that reads as \<open>content\<close>. The script counts fixed and skipped files;
  \<open>outcome\<close> also tells the two reasons for skipping apart: the guard of line 50, or
  nothing to replace (lines 65 and 170).
\<close>

definition processFile :: "nat \<Rightarrow> str \<Rightarrow> result" where
  "processFile depth content =
     (if includes_str content marker then
        \<lparr>newContent = content, modified = False, outcome = SkippedAlreadyPatched\<rparr>
      else if \<not> hasInternalImport content \<and> \<not> hasApiImport content then
        \<lparr>newContent = content, modified = False, outcome = SkippedNoMatch\<rparr>
      else if test sameLineCombinedRegex content then
        finish (replace content combinedImportRegex (combinedText (importPath depth))) True
      else if hasInternalImport content \<and> hasApiImport content then
        (let beforeInternal = content;
             new1 = replace content internalImportRegex (internalText (importPath depth));
             internalReplaced = (beforeInternal \<noteq> new1);
             beforeApi = new1;
             new2 = replace new1 apiImportRegex (apiText (importPath depth));
             apiReplaced = (beforeApi \<noteq> new2)
         in finish new2 (internalReplaced \<or> apiReplaced))
      else if hasInternalImport content then
        (if test internalImportRegex content then
           (let new1 = replace content internalImportRegex (internalText (importPath depth))
            in finish new1 (content \<noteq> new1))
         else finish content False)
      else
        (if test apiImportRegex content then
           (let new1 = replace content apiImportRegex (apiText (importPath depth))
            in finish new1 (content \<noteq> new1))
         else finish content False))"

text \<open>What is on disk after the iteration: line 166 writes only a modified file.\<close>

definition written :: "nat \<Rightarrow> str \<Rightarrow> str" where
  "written depth content =
     (let r = processFile depth content in if modified r then newContent r else content)"


section \<open>Version one: the body of the loop over the files\<close>

text \<open>
  The older copy of the script has the same detection (lines 56 to 63) and these
  replacement patterns (lines 85, 101, 115), without \<open>type\<close>, without \<open>\b\<close> and with
  \<open>\s*$\<close> at the end:
  \<^verbatim>\<open>/^import\s+\{[^}]*(?:internal|api)[^}]*\}\s+from\s+['"]\.\.?\/?.*\/_generated\/api(\.js)?['"];?\s*$/gm\<close>
  \<^verbatim>\<open>/^import\s+\{[^}]*internal[^}]*\}\s+from\s+['"]\.\.?\/?.*\/_generated\/api(\.js)?['"];?\s*$/gm\<close>
  \<^verbatim>\<open>/^import\s+\{[^}]*api[^}]*\}\s+from\s+['"]\.\.?\/?.*\/_generated\/api(\.js)?['"];?\s*$/gm\<close>
\<close>

definition importRegex_v1 :: "regex \<Rightarrow> regex" where
  "importRegex_v1 names =
     cat ([Bol, Str (js ''import''), spaces1, Str (js ''{''),
           notBrace, names, notBrace, Str (js ''}''), spaces1, Str (js ''from''), spaces1]
          @ specifier @ [Opt (Str (js '';'')), Star (Cls Space), Eol])"

definition combinedImportRegex_v1 :: regex where
  "combinedImportRegex_v1 = importRegex_v1 (Alt (Str (js ''internal'')) (Str (js ''api'')))"

definition internalImportRegex_v1 :: regex where
  "internalImportRegex_v1 = importRegex_v1 (Str (js ''internal''))"

definition apiImportRegex_v1 :: regex where
  "apiImportRegex_v1 = importRegex_v1 (Str (js ''api''))"

definition processFile_v1 :: "nat \<Rightarrow> str \<Rightarrow> result" where
  "processFile_v1 depth content =
     (if includes_str content marker then
        \<lparr>newContent = content, modified = False, outcome = SkippedAlreadyPatched\<rparr>
      else if \<not> hasInternalImport content \<and> \<not> hasApiImport content then
        \<lparr>newContent = content, modified = False, outcome = SkippedNoMatch\<rparr>
      else
        (let hasCombinedImport = (hasInternalImport content \<and> hasApiImport content) in
         if hasCombinedImport then
           (if test combinedImportRegex_v1 content then
              finish (replace content combinedImportRegex_v1 (combinedText (importPath depth))) True
            else finish content False)
         else if hasInternalImport content then
           (if test internalImportRegex_v1 content then
              finish (replace content internalImportRegex_v1 (internalText (importPath depth))) True
            else finish content False)
         else
           (if test apiImportRegex_v1 content then
              finish (replace content apiImportRegex_v1 (apiText (importPath depth))) True
            else finish content False)))"

section \<open>Positions reached by a match\<close>

text \<open>
  \<open>lastp p ys\<close> is the code unit before the position behind \<open>ys\<close>, when \<open>p\<close> is the
  one before \<open>ys\<close>; \<open>reach q q'\<close> says that \<open>q'\<close> lies in the subject of \<open>q\<close>, at or
  behind \<open>q\<close>.
\<close>

definition lastp :: "nat option \<Rightarrow> str \<Rightarrow> nat option" where
  "lastp p ys = (if ys = [] then p else Some (last ys))"

definition reach :: "pos \<Rightarrow> pos \<Rightarrow> bool" where
  "reach q q' = (\<exists>ys. snd q = ys @ snd q' \<and> fst q' = lastp (fst q) ys)"


section \<open>The pieces of a replacement\<close>

text \<open>
  A run of \<open>String.prototype.replace\<close> cuts its subject into code units that it copies
  and spans that it replaces: \<open>source\<close> is the subject, \<open>target rep\<close> the result.
  \<open>spansOk r p ps\<close> says that every span of \<open>ps\<close> is a match of \<open>r\<close> at its place (the
  code unit before the pieces being \<open>p\<close>) that begins with \<open>import\<close> at the start of a
  line and ends at the end of a line.
\<close>

datatype piece = Keep nat | Span str

fun source :: "piece list \<Rightarrow> str" where
  "source [] = []"
| "source (Keep x # ps) = x # source ps"
| "source (Span m # ps) = m @ source ps"

fun target :: "str \<Rightarrow> piece list \<Rightarrow> str" where
  "target rep [] = []"
| "target rep (Keep x # ps) = x # target rep ps"
| "target rep (Span m # ps) = rep @ target rep ps"

fun spansOk :: "regex \<Rightarrow> nat option \<Rightarrow> piece list \<Rightarrow> bool" where
  "spansOk r p [] = True"
| "spansOk r p (Keep x # ps) = spansOk r (Some x) ps"
| "spansOk r p (Span m # ps) =
     (startsWith m (js ''import'')
      \<and> (lastp p m, source ps) \<in> set (rmatch r (p, m @ source ps))
      \<and> atBol (p, m @ source ps) \<and> atEol (lastp p m, source ps)
      \<and> spansOk r (lastp p m) ps)"

fun hasSpan :: "piece list \<Rightarrow> bool" where
  "hasSpan [] = False"
| "hasSpan (Keep x # ps) = hasSpan ps"
| "hasSpan (Span m # ps) = True"

definition rules :: "nat \<Rightarrow> (regex \<times> str) list" where
  "rules depth =
     [(combinedImportRegex, combinedText (importPath depth)),
      (internalImportRegex, internalText (importPath depth)),
      (apiImportRegex, apiText (importPath depth))]"

text \<open>
  \<open>rules\<close> pairs every replacement pattern of version two with its generated text;
  \<open>countOcc s w\<close> counts the places of \<open>s\<close> at which \<open>w\<close> begins; \<open>wholeLines r\<close> says
  that every match of \<open>r\<close> begins with \<open>import\<close> at the start of a line and ends at the
  end of a line.
\<close>

fun countOcc :: "str \<Rightarrow> str \<Rightarrow> nat" where
  "countOcc [] w = (if w = [] then 1 else 0)"
| "countOcc (x # xs) w = (if startsWith (x # xs) w then 1 else 0) + countOcc xs w"

definition wholeLines :: "regex \<Rightarrow> bool" where
  "wholeLines r = (\<forall>q q'. q' \<in> set (rmatch r q) \<longrightarrow>
      atBol q \<and> atEol q' \<and> startsWith (snd q) (js ''import'')
      \<and> length (snd q') + 6 \<le> length (snd q))"

section \<open>Brace lists\<close>

text \<open>
  \<open>bracedFirst n s\<close>: somewhere in \<open>s\<close> an opening brace is followed, white space
  apart, by exactly the name \<open>n\<close> and then, white space apart, by a comma or the closing
  brace. \<open>importOf name\<close> is the one-line file that imports the single name \<open>name\<close>.
\<close>

definition firstName :: "str \<Rightarrow> str \<Rightarrow> bool" where
  "firstName n xs =
     (let r = dropWhile isSpace xs in
      startsWith r n \<and>
      (case dropWhile isSpace (drop (length n) r) of [] \<Rightarrow> False | y # _ \<Rightarrow> y = 44 \<or> y = 125))"

fun bracedFirst :: "str \<Rightarrow> str \<Rightarrow> bool" where
  "bracedFirst n [] = False"
| "bracedFirst n (x # xs) = ((x = 123 \<and> firstName n xs) \<or> bracedFirst n xs)"

definition importOf :: "str \<Rightarrow> str" where
  "importOf name = js ''import { '' @ name @ js '' } from \"../_generated/api\";''"

section \<open>Sample files\<close>

text \<open>Texts on which the script is run below, and the lines of a text.\<close>

definition sampleCombined :: str where
  "sampleCombined = js ''import { api, internal } from \"./_generated/api.js\";''"

definition samplePrecedence :: str where
  "samplePrecedence = js ''import { api, internal } from \"./_generated/api.js\";\<newline>import { internal } from \"./_generated/api\";\<newline>import { api } from \"./_generated/api\";\<newline>''"

definition sampleNonAdjacent :: str where
  "sampleNonAdjacent = js ''import { internal, query, api } from \"../_generated/api\";''"

definition sampleSeparate :: str where
  "sampleSeparate = js ''import { internal } from \"../_generated/api\";\<newline>import { api } from \"../_generated/api\";\<newline>''"

definition sampleEdited :: str where
  "sampleEdited = js ''import { internal } from \"../_generated/api\";\<newline>import client, { api } from \"../_generated/api\";\<newline>''"

definition sampleDefault :: str where
  "sampleDefault = js ''import client, { internal } from \"../_generated/api\";''"

definition sampleLater :: str where
  "sampleLater = js ''import { foo, internal } from \"../_generated/api\";''"

definition sampleLaterBoth :: str where
  "sampleLaterBoth = js ''import { foo, internal, api } from \"../_generated/api\";''"

definition sampleCombinedLater :: str where
  "sampleCombinedLater = js ''import { foo, api, internal } from \"./_generated/api.js\";''"

definition samplePatchedCombined :: str where
  "samplePatchedCombined = js ''// Bypass TS2589 by hand\<newline>import { api, internal } from \"./_generated/api.js\";''"

definition samplePatchedSeparate :: str where
  "samplePatchedSeparate = js ''// Bypass TS2589 by hand\<newline>import { internal } from \"../_generated/api\";\<newline>import { api } from \"../_generated/api\";\<newline>''"

definition sampleSpanning :: str where
  "sampleSpanning = js ''import { internal } from \"../_generated/api\";\<newline>import { api } from \"../_generated/api\";\<newline>import {\<newline>  internal, api } from \"../_generated/api\";''"

definition sampleMultiLine :: str where
  "sampleMultiLine = js ''import {\<newline>  internal\<newline>} from \"../_generated/api\";\<newline>''"

definition sampleBlank :: str where
  "sampleBlank = js ''import { internal } from \"../_generated/api\";\<newline>\<newline>export const x = 1;\<newline>''"

fun linesOf :: "str \<Rightarrow> str list" where
  "linesOf [] = [[]]"
| "linesOf (x # xs) =
     (if isLineTerminator x then [] # linesOf xs
      else (case linesOf xs of [] \<Rightarrow> [[x]] | l # ls \<Rightarrow> (x # l) # ls))"

section \<open>Facts about matching, searching and replacing\<close>

declare rmatch.simps(6) [simp del]
declare replaceAll.simps [simp del]

lemma lastp_Nil [simp]: "lastp p [] = p" by (simp add: lastp_def)
lemma lastp_Cons [simp]: "lastp p (y # ys) = lastp (Some y) ys" by (simp add: lastp_def)
lemma lastp_append [simp]: "lastp p (ys @ zs) = lastp (lastp p ys) zs"
  by (induction ys arbitrary: p) auto

lemma reach_refl [simp]: "reach q q" by (auto simp: reach_def)
lemma reach_trans: "reach a b \<Longrightarrow> reach b c \<Longrightarrow> reach a c"
  unfolding reach_def
  apply clarify
  subgoal for ys zs by (rule exI[of _ "ys @ zs"]) simp
  done
lemma reach_length: "reach q q' \<Longrightarrow> length (snd q') \<le> length (snd q)"
  by (auto simp: reach_def)

lemma reach_pair: "reach (p, xs) (p', xs') \<longleftrightarrow> (\<exists>ys. xs = ys @ xs' \<and> p' = lastp p ys)"
  by (simp add: reach_def)

lemma advance_append: "advance (p, ys @ zs) (length ys) = (lastp p ys, zs)"
  by (induction ys arbitrary: p) auto

lemma reach_advance: "startsWith (snd q) w \<Longrightarrow> reach q (advance q (length w))"
proof -
  assume a: "startsWith (snd q) w"
  obtain p xs where q: "q = (p, xs)" by (cases q)
  from a q have "xs = w @ drop (length w) xs"
    by (metis append_take_drop_id snd_conv startsWith_def)
  then obtain zs where xs: "xs = w @ zs" ..
  show ?thesis unfolding q xs advance_append by (auto simp: reach_def)
qed

lemma rmatch_reach: "q' \<in> set (rmatch r q) \<Longrightarrow> reach q q'"
proof (induction r q arbitrary: q' rule: rmatch.induct)
  case (2 w q) then show ?case by (auto simp: reach_advance split: if_splits)
next
  case (3 k q)
  then show ?case by (cases q) (auto simp: reach_def split: list.splits if_splits intro: exI[of _ "[x]" for x])
next
  case (4 r1 r2 q)
  then obtain q1 where q1: "q1 \<in> set (rmatch r1 q)" "q' \<in> set (rmatch r2 q1)" by auto
  then show ?case using "4.IH" by (blast intro: reach_trans)
next
  case (6 r q)
  show ?case
  proof (cases "q' = q")
    case True then show ?thesis by simp
  next
    case False
    with "6.prems" obtain q1 where q1: "q1 \<in> set (rmatch r q)"
        "length (snd q1) < length (snd q)" "q' \<in> set (rmatch (Star r) q1)"
      by (subst (asm) rmatch.simps(6)) (auto split: if_splits)
    then show ?thesis using "6.IH" by (blast intro: reach_trans)
  qed
qed (auto split: if_splits)


lemma search_iff:
  "search r (p, xs) \<longleftrightarrow> (\<exists>ys zs. xs = ys @ zs \<and> rmatch r (lastp p ys, zs) \<noteq> [])"
proof (induction xs arbitrary: p)
  case Nil then show ?case by simp
next
  case (Cons x xs)
  show ?case
  proof
    assume "search r (p, x # xs)"
    then consider "rmatch r (p, x # xs) \<noteq> []" | "search r (Some x, xs)" by auto
    then show "\<exists>ys zs. x # xs = ys @ zs \<and> rmatch r (lastp p ys, zs) \<noteq> []"
    proof cases
      case 1 then show ?thesis by (intro exI[of _ "[]"] exI[of _ "x # xs"]) simp
    next
      case 2
      then obtain ys zs where "xs = ys @ zs" "rmatch r (lastp (Some x) ys, zs) \<noteq> []"
        using Cons.IH by blast
      then show ?thesis by (intro exI[of _ "x # ys"] exI[of _ zs]) simp
    qed
  next
    assume "\<exists>ys zs. x # xs = ys @ zs \<and> rmatch r (lastp p ys, zs) \<noteq> []"
    then obtain ys zs where h: "x # xs = ys @ zs" "rmatch r (lastp p ys, zs) \<noteq> []" by blast
    show "search r (p, x # xs)"
    proof (cases ys)
      case Nil
      with h have "rmatch r (p, x # xs) \<noteq> []" by (metis append_Nil lastp_Nil)
      then show ?thesis by simp
    next
      case (Cons y ys')
      with h have "xs = ys' @ zs" "rmatch r (lastp (Some x) ys', zs) \<noteq> []" by auto
      then have "search r (Some x, xs)" using Cons.IH by blast
      then show ?thesis by simp
    qed
  qed
qed

lemma replaceAll_no_match: "\<not> search r (p, xs) \<Longrightarrow> replaceAll r rep (p, xs) = xs"
  by (induction xs arbitrary: p) (simp_all add: replaceAll.simps)

lemma replaceAll_has_rep:
  "search r (p, xs) \<Longrightarrow> \<exists>a b. replaceAll r rep (p, xs) = a @ rep @ b"
proof (induction xs arbitrary: p)
  case Nil
  then show ?case
    by (auto simp: replaceAll.simps split: list.splits intro: exI[of _ "[]"])
next
  case (Cons x xs)
  show ?case
  proof (cases "rmatch r (p, x # xs)")
    case Nil
    with Cons.prems have "search r (Some x, xs)" by simp
    then obtain a b where "replaceAll r rep (Some x, xs) = a @ rep @ b" using Cons.IH by blast
    with Nil have "replaceAll r rep (p, x # xs) = (x # a) @ rep @ b"
      by (simp add: replaceAll.simps)
    then show ?thesis by blast
  next
    case (Cons q qs)
    then have "\<exists>b. replaceAll r rep (p, x # xs) = [] @ rep @ b"
      by (simp add: replaceAll.simps)
    then show ?thesis by blast
  qed
qed

lemma startsWith_iff: "startsWith xs w \<longleftrightarrow> (\<exists>b. xs = w @ b)"
  unfolding startsWith_def
  by (metis append_eq_conv_conj append_take_drop_id)

lemma includes_str_iff: "includes_str xs w \<longleftrightarrow> (\<exists>a b. xs = a @ w @ b)"
proof (induction xs)
  case Nil then show ?case by auto
next
  case (Cons x xs)
  show ?case
  proof
    assume "includes_str (x # xs) w"
    then consider "startsWith (x # xs) w" | "includes_str xs w" by auto
    then show "\<exists>a b. x # xs = a @ w @ b"
    proof cases
      case 1 then show ?thesis unfolding startsWith_iff by (metis append_Nil)
    next
      case 2
      then obtain a b where "xs = a @ w @ b" using Cons.IH by blast
      then have "x # xs = (x # a) @ w @ b" by simp
      then show ?thesis by blast
    qed
  next
    assume "\<exists>a b. x # xs = a @ w @ b"
    then obtain a b where h: "x # xs = a @ w @ b" by blast
    show "includes_str (x # xs) w"
    proof (cases a)
      case Nil
      with h have "startsWith (x # xs) w" unfolding startsWith_iff by (metis append_Nil)
      then show ?thesis by simp
    next
      case (Cons y a')
      with h have "xs = a' @ w @ b" by simp
      then show ?thesis using Cons.IH by auto
    qed
  qed
qed

lemma includes_str_mono:
  "includes_str rep w \<Longrightarrow> includes_str (a @ rep @ b) w"
  unfolding includes_str_iff
  by (metis append.assoc)

lemma replace_no_match: "\<not> test r s \<Longrightarrow> replace s r rep = s"
  by (simp add: test_def replace_def replaceAll_no_match)

lemma replace_includes:
  "test r s \<Longrightarrow> includes_str rep w \<Longrightarrow> includes_str (replace s r rep) w"
  unfolding test_def replace_def
  using replaceAll_has_rep[of r None s rep] includes_str_mono by metis

lemma replace_changed:
  "replace s r rep \<noteq> s \<Longrightarrow> test r s"
  using replace_no_match by blast


lemma combinedText_marker: "includes_str (combinedText path) marker"
proof -
  have "\<exists>b. combinedText path = js ''// '' @ marker @ b"
    by (simp add: combinedText_def marker_def js_def)
  then show ?thesis unfolding includes_str_iff by blast
qed

lemma internalText_marker: "includes_str (internalText path) marker"
proof -
  have "\<exists>b. internalText path = js ''// '' @ marker @ b"
    by (simp add: internalText_def marker_def js_def)
  then show ?thesis unfolding includes_str_iff by blast
qed

lemma apiText_marker: "includes_str (apiText path) marker"
proof -
  have "\<exists>b. apiText path = js ''// '' @ marker @ b"
    by (simp add: apiText_def marker_def js_def)
  then show ?thesis unfolding includes_str_iff by blast
qed

lemma processFile_patched:
  "includes_str c marker \<Longrightarrow>
   processFile d c = \<lparr>newContent = c, modified = False, outcome = SkippedAlreadyPatched\<rparr>"
  by (simp add: processFile_def)

lemma processFile_modified_marker:
  assumes "modified (processFile d c)"
  shows "includes_str (newContent (processFile d c)) marker"
proof -
  let ?p = "importPath d"
  let ?n1 = "replace c internalImportRegex (internalText ?p)"
  let ?n2 = "replace ?n1 apiImportRegex (apiText ?p)"
  let ?a1 = "replace c apiImportRegex (apiText ?p)"
  have i: "x \<noteq> replace x internalImportRegex (internalText ?p) \<Longrightarrow>
           includes_str (replace x internalImportRegex (internalText ?p)) marker" for x
    using replace_changed[of x] replace_includes internalText_marker by metis
  have a: "x \<noteq> replace x apiImportRegex (apiText ?p) \<Longrightarrow>
           includes_str (replace x apiImportRegex (apiText ?p)) marker" for x
    using replace_changed[of x] replace_includes apiText_marker by metis
  have s: "c \<noteq> ?n1 \<or> ?n1 \<noteq> ?n2 \<Longrightarrow> includes_str ?n2 marker"
    using i[of c] a[of ?n1] by metis
  have k: "test sameLineCombinedRegex c \<Longrightarrow>
           includes_str (replace c combinedImportRegex (combinedText ?p)) marker"
    unfolding combinedImportRegex_def using replace_includes combinedText_marker by blast
  from assms show ?thesis
    unfolding processFile_def finish_def Let_def
    using s k i[of c] a[of c] by (auto split: if_splits)
qed

lemma processFile_unmodified:
  "\<not> modified (processFile d c) \<Longrightarrow> newContent (processFile d c) = c"
  unfolding processFile_def finish_def Let_def
  by (simp split: if_splits)



subsection \<open>Replacement, piece by piece\<close>

lemma replaceAll_pieces:
  assumes "wholeLines r"
  shows "\<exists>ps. source ps = xs \<and> replaceAll r rep (p, xs) = target rep ps \<and> spansOk r p ps
              \<and> (hasSpan ps \<longleftrightarrow> search r (p, xs))"
proof (induction xs arbitrary: p rule: length_induct)
  case (1 xs)
  show ?case
  proof (cases "rmatch r (p, xs)")
    case Nil
    show ?thesis
    proof (cases xs)
      case Nil
      with \<open>rmatch r (p, xs) = []\<close> show ?thesis
        by (intro exI[of _ "[]"]) (simp add: replaceAll.simps)
    next
      case (Cons x xs')
      then obtain ps where ps: "source ps = xs'"
          "replaceAll r rep (Some x, xs') = target rep ps" "spansOk r (Some x) ps"
          "hasSpan ps \<longleftrightarrow> search r (Some x, xs')"
        using "1.IH" by force
      with Cons \<open>rmatch r (p, xs) = []\<close> show ?thesis
        by (intro exI[of _ "Keep x # ps"]) (simp add: replaceAll.simps)
    qed
  next
    case (Cons q qs)
    then have qin: "q \<in> set (rmatch r (p, xs))" by simp
    with assms have "atBol (p, xs) \<and> atEol q \<and> startsWith (snd (p, xs)) (js ''import'')
        \<and> length (snd q) + 6 \<le> length (snd (p, xs))"
      unfolding wholeLines_def by blast
    then have g: "atBol (p, xs)" "atEol q" "length (snd q) < length xs"
      and g4: "startsWith xs (js ''import'')" "length (snd q) + 6 \<le> length xs" by simp_all
    from rmatch_reach[OF qin] obtain m where m: "xs = m @ snd q" "fst q = lastp p m"
      by (auto simp: reach_def)
    with g4 have "6 \<le> length m" by simp
    with m(1) g4(1) have mne: "startsWith m (js ''import'')"
      by (simp add: startsWith_def js_def)
    from g(3) obtain ps where ps: "source ps = snd q"
        "replaceAll r rep (fst q, snd q) = target rep ps" "spansOk r (fst q) ps"
      using "1.IH" by blast
    have q: "q = (lastp p m, snd q)" using m(2) by (cases q) simp
    have "replaceAll r rep (p, xs) = rep @ replaceAll r rep q"
      using Cons g(3) by (simp add: replaceAll.simps)
    moreover have "spansOk r p (Span m # ps)"
      using ps mne g qin m q by (simp; metis)
    moreover have "search r (p, xs)"
      using Cons by (cases xs) simp_all
    ultimately show ?thesis
      using ps m q by (intro exI[of _ "Span m # ps"]) (simp; metis)
  qed
qed

lemma rmatch_Seq_iff:
  "q' \<in> set (rmatch (Seq r1 r2) q) \<longleftrightarrow> (\<exists>q1 \<in> set (rmatch r1 q). q' \<in> set (rmatch r2 q1))"
  by auto

lemma cat_ends_Eol: "q' \<in> set (rmatch (cat (rs @ [Eol])) q) \<Longrightarrow> atEol q'"
  by (induction rs arbitrary: q) (auto split: if_splits)

lemma advance_length: "length (snd (advance q n)) = length (snd q) - n"
  by (induction q n rule: advance.induct) auto

lemma cat_begins:
  assumes "q' \<in> set (rmatch (cat (Bol # Str w # rs)) q)"
  shows "atBol q \<and> startsWith (snd q) w \<and> length (snd q') \<le> length (snd q) - length w"
proof -
  from assms have b: "atBol q" and s: "startsWith (snd q) w"
    and r: "q' \<in> set (rmatch (cat rs) (advance q (length w)))"
    by (auto split: if_splits)
  from rmatch_reach[OF r] have "length (snd q') \<le> length (snd (advance q (length w)))"
    by (rule reach_length)
  with b s show ?thesis by (simp add: advance_length)
qed

lemma wholeLinesI:
  assumes "r = cat (Bol # Str w # rs @ [Eol])" "w = js ''import''"
  shows "wholeLines r"
  unfolding wholeLines_def
proof (intro allI impI)
  fix q q' assume a: "q' \<in> set (rmatch r q)"
  from a assms(1) have "q' \<in> set (rmatch (cat (Bol # Str w # (rs @ [Eol]))) q)" by simp
  from cat_begins[OF this]
  have 1: "atBol q" "startsWith (snd q) w" "length (snd q') \<le> length (snd q) - length w"
    by auto
  from 1(2) have "length w \<le> length (snd q)"
    unfolding startsWith_iff by auto
  with 1(3) assms(2) have 2: "length (snd q') + 6 \<le> length (snd q)"
    by (simp add: js_def)
  from a assms(1) have "q' \<in> set (rmatch (cat ((Bol # Str w # rs) @ [Eol])) q)" by simp
  then have "atEol q'" by (rule cat_ends_Eol)
  with 1 2 assms(2) show "atBol q \<and> atEol q' \<and> startsWith (snd q) (js ''import'')
      \<and> length (snd q') + 6 \<le> length (snd q)" by simp
qed

lemma wholeLines_name: "wholeLines (nameImportRegex n)"
  by (rule wholeLinesI[where rs = "[spaces1, optType, Str (js ''{''),
           notBrace, word n, notBrace, Str (js ''}''), spaces1, Str (js ''from''), spaces1]
          @ specifier @ [Opt (Str (js '';'')), Star (Cls Dot)]"])
     (simp_all add: nameImportRegex_def)

lemma wholeLines_combined: "wholeLines sameLineCombinedRegex"
  by (rule wholeLinesI[where rs = "[spaces1, optType, Str (js ''{''),
           Look (cat [notBrace, word ''internal'']), Look (cat [notBrace, word ''api'']),
           notBrace, Str (js ''}''), spaces1, Str (js ''from''), spaces1] @ specifier @
          [Opt (Str (js '';'')), Star (Cls Dot)]"])
     (simp_all add: sameLineCombinedRegex_def)


lemma keep_all:
  "source (map Keep xs) = xs \<and> target rep (map Keep xs) = xs
   \<and> spansOk r p (map Keep xs) \<and> \<not> hasSpan (map Keep xs)"
  by (induction xs arbitrary: p) auto

lemma target_no_span: "\<not> hasSpan ps \<Longrightarrow> target rep ps = source ps"
  by (induction ps rule: hasSpan.induct) auto

lemma source_target_differ:
  "hasSpan ps \<Longrightarrow> spansOk r p ps \<Longrightarrow> rep \<noteq> [] \<Longrightarrow> hd rep \<noteq> 105 \<Longrightarrow>
   source ps \<noteq> target rep ps"
proof (induction ps arbitrary: p rule: hasSpan.induct)
  case (3 m ps)
  then have "startsWith m (js ''import'')" by simp
  then obtain m' where "m = 105 # m'" by (auto simp: startsWith_iff js_def)
  with 3 show ?case by (cases rep) auto
qed auto

lemma replace_pieces:
  assumes "wholeLines r"
  shows "\<exists>ps. source ps = s \<and> replace s r rep = target rep ps \<and> spansOk r None ps
              \<and> (hasSpan ps \<longleftrightarrow> test r s)"
  unfolding replace_def test_def using replaceAll_pieces[OF assms] by blast

lemma replace_changes_iff:
  assumes "wholeLines r" "rep \<noteq> []" "hd rep \<noteq> 105"
  shows "replace s r rep \<noteq> s \<longleftrightarrow> test r s"
proof -
  obtain ps where ps: "source ps = s" "replace s r rep = target rep ps" "spansOk r None ps"
      "hasSpan ps \<longleftrightarrow> test r s"
    using replace_pieces[OF assms(1)] by blast
  show ?thesis
  proof (cases "hasSpan ps")
    case True
    with source_target_differ[OF True ps(3) assms(2,3)] ps show ?thesis by metis
  next
    case False
    with target_no_span[OF False] ps show ?thesis by metis
  qed
qed

lemma texts_head:
  "combinedText p \<noteq> [] \<and> hd (combinedText p) \<noteq> 105
   \<and> internalText p \<noteq> [] \<and> hd (internalText p) \<noteq> 105
   \<and> apiText p \<noteq> [] \<and> hd (apiText p) \<noteq> 105"
  by (simp add: combinedText_def internalText_def apiText_def js_def)

lemma importPath_literal: "36 \<notin> set (importPath depth)"
proof -
  have "set (concat (replicate depth (js ''../''))) \<subseteq> set (js ''../'')"
    by (induction depth) auto
  then have "36 \<notin> set (relPath depth)"
    by (auto simp: relPath_def js_def)
  then show ?thesis by (simp add: importPath_def js_def)
qed

lemma replacement_literal:
  "36 \<notin> set (combinedText (importPath depth))"
  "36 \<notin> set (internalText (importPath depth))"
  "36 \<notin> set (apiText (importPath depth))"
  using importPath_literal[of depth]
  by (simp_all add: combinedText_def internalText_def apiText_def js_def)

lemma countOcc_le: "w \<noteq> [] \<Longrightarrow> countOcc xs w \<le> count_list xs (hd w)"
proof (induction xs)
  case Nil then show ?case by simp
next
  case (Cons x xs)
  have ih: "countOcc xs w \<le> count_list xs (hd w)" using Cons by blast
  show ?case
  proof (cases "startsWith (x # xs) w")
    case True
    then have "x = hd w"
      using Cons.prems unfolding startsWith_iff by (cases w) auto
    then have "count_list (x # xs) (hd w) = count_list xs (hd w) + 1" by simp
    moreover have "countOcc (x # xs) w = 1 + countOcc xs w" using True by simp
    ultimately show ?thesis using ih by linarith
  next
    case False
    then have "countOcc (x # xs) w = countOcc xs w" by simp
    moreover have "count_list xs (hd w) \<le> count_list (x # xs) (hd w)" by simp
    ultimately show ?thesis using ih by linarith
  qed
qed

lemma countOcc_pos: "includes_str xs w \<Longrightarrow> w \<noteq> [] \<Longrightarrow> 1 \<le> countOcc xs w"
  by (induction xs) auto

lemma importPath_chars: "66 \<notin> set (importPath depth)"
proof -
  have "set (concat (replicate depth (js ''../''))) \<subseteq> set (js ''../'')"
    by (induction depth) auto
  then have "66 \<notin> set (relPath depth)"
    by (auto simp: relPath_def js_def)
  then show ?thesis by (simp add: importPath_def js_def)
qed

lemma combinedText_marker_once: "countOcc (combinedText (importPath depth)) marker = 1"
proof -
  have "count_list (importPath depth) 66 = 0"
    using importPath_chars by (simp add: count_list_0_iff)
  then have "count_list (combinedText (importPath depth)) 66 = 1"
    by (simp add: combinedText_def js_def)
  moreover have "hd marker = 66" "marker \<noteq> []" by (simp_all add: marker_def js_def)
  ultimately have "countOcc (combinedText (importPath depth)) marker \<le> 1"
    using countOcc_le[of marker "combinedText (importPath depth)"] by simp
  moreover have "1 \<le> countOcc (combinedText (importPath depth)) marker"
    using countOcc_pos[OF combinedText_marker] \<open>marker \<noteq> []\<close> by blast
  ultimately show ?thesis by simp
qed

lemma wholeLines_rules [simp]:
  "wholeLines combinedImportRegex" "wholeLines internalImportRegex" "wholeLines apiImportRegex"
  by (simp_all add: combinedImportRegex_def internalImportRegex_def apiImportRegex_def
        wholeLines_name wholeLines_combined)

subsection \<open>The shape of a match\<close>

lemma mem_Str:
  "(p', xs') \<in> set (rmatch (Str w) (p, xs)) \<longleftrightarrow> xs = w @ xs' \<and> p' = lastp p w"
proof
  assume "(p', xs') \<in> set (rmatch (Str w) (p, xs))"
  then have s: "startsWith xs w" and e: "(p', xs') = advance (p, xs) (length w)"
    by (auto split: if_splits)
  from s obtain b where "xs = w @ b" unfolding startsWith_iff by blast
  with e show "xs = w @ xs' \<and> p' = lastp p w" by (simp add: advance_append)
next
  assume "xs = w @ xs' \<and> p' = lastp p w"
  then show "(p', xs') \<in> set (rmatch (Str w) (p, xs))"
    by (simp add: startsWith_iff advance_append)
qed

lemma mem_Cls:
  "(p', xs') \<in> set (rmatch (Cls k) (p, xs)) \<longleftrightarrow> (\<exists>c. xs = c # xs' \<and> inClass k c \<and> p' = Some c)"
  by (auto split: list.splits if_splits)

lemma mem_StarCls:
  "(p', xs') \<in> set (rmatch (Star (Cls k)) (p, xs))
     \<longleftrightarrow> (\<exists>ys. xs = ys @ xs' \<and> (\<forall>y\<in>set ys. inClass k y) \<and> p' = lastp p ys)"
proof (induction xs arbitrary: p)
  case Nil
  show ?case by (subst rmatch.simps(6)) auto
next
  case (Cons x xs)
  show ?case
  proof (cases "inClass k x")
    case False
    then have "rmatch (Star (Cls k)) (p, x # xs) = [(p, x # xs)]"
      by (subst rmatch.simps(6)) simp
    moreover have "(\<exists>ys. x # xs = ys @ xs' \<and> (\<forall>y\<in>set ys. inClass k y) \<and> p' = lastp p ys)
        \<longleftrightarrow> xs' = x # xs \<and> p' = p"
    proof
      assume "\<exists>ys. x # xs = ys @ xs' \<and> (\<forall>y\<in>set ys. inClass k y) \<and> p' = lastp p ys"
      then obtain ys where ys: "x # xs = ys @ xs'" "\<forall>y\<in>set ys. inClass k y" "p' = lastp p ys"
        by blast
      with False have "ys = []" by (cases ys) auto
      with ys show "xs' = x # xs \<and> p' = p" by simp
    next
      assume "xs' = x # xs \<and> p' = p"
      then show "\<exists>ys. x # xs = ys @ xs' \<and> (\<forall>y\<in>set ys. inClass k y) \<and> p' = lastp p ys"
        by (intro exI[of _ "[]"]) simp
    qed
    ultimately show ?thesis by auto
  next
    case True
    then have "rmatch (Star (Cls k)) (p, x # xs)
        = rmatch (Star (Cls k)) (Some x, xs) @ [(p, x # xs)]"
      by (subst rmatch.simps(6)) simp
    then have "(p', xs') \<in> set (rmatch (Star (Cls k)) (p, x # xs))
        \<longleftrightarrow> (p', xs') \<in> set (rmatch (Star (Cls k)) (Some x, xs)) \<or> (p' = p \<and> xs' = x # xs)"
      by auto
    also have "\<dots> \<longleftrightarrow> (\<exists>ys. xs = ys @ xs' \<and> (\<forall>y\<in>set ys. inClass k y) \<and> p' = lastp (Some x) ys)
        \<or> (p' = p \<and> xs' = x # xs)"
      using Cons.IH by simp
    also have "\<dots> \<longleftrightarrow> (\<exists>ys. x # xs = ys @ xs' \<and> (\<forall>y\<in>set ys. inClass k y) \<and> p' = lastp p ys)"
    proof
      assume "(\<exists>ys. xs = ys @ xs' \<and> (\<forall>y\<in>set ys. inClass k y) \<and> p' = lastp (Some x) ys)
        \<or> (p' = p \<and> xs' = x # xs)"
      then show "\<exists>ys. x # xs = ys @ xs' \<and> (\<forall>y\<in>set ys. inClass k y) \<and> p' = lastp p ys"
      proof
        assume "\<exists>ys. xs = ys @ xs' \<and> (\<forall>y\<in>set ys. inClass k y) \<and> p' = lastp (Some x) ys"
        then obtain ys where "xs = ys @ xs'" "\<forall>y\<in>set ys. inClass k y" "p' = lastp (Some x) ys"
          by blast
        with True show ?thesis by (intro exI[of _ "x # ys"]) simp
      next
        assume "p' = p \<and> xs' = x # xs"
        then show ?thesis by (intro exI[of _ "[]"]) simp
      qed
    next
      assume "\<exists>ys. x # xs = ys @ xs' \<and> (\<forall>y\<in>set ys. inClass k y) \<and> p' = lastp p ys"
      then obtain ys where ys: "x # xs = ys @ xs'" "\<forall>y\<in>set ys. inClass k y" "p' = lastp p ys"
        by blast
      show "(\<exists>ys. xs = ys @ xs' \<and> (\<forall>y\<in>set ys. inClass k y) \<and> p' = lastp (Some x) ys)
        \<or> (p' = p \<and> xs' = x # xs)"
      proof (cases ys)
        case Nil with ys show ?thesis by simp
      next
        case (Cons y ys')
        with ys have "xs = ys' @ xs'" "\<forall>y\<in>set ys'. inClass k y" "p' = lastp (Some x) ys'"
          by auto
        then show ?thesis by blast
      qed
    qed
    finally show ?thesis .
  qed
qed

lemma mem_spaces1:
  "(p', xs') \<in> set (rmatch spaces1 (p, xs))
     \<longleftrightarrow> (\<exists>ys. ys \<noteq> [] \<and> xs = ys @ xs' \<and> (\<forall>y\<in>set ys. isSpace y) \<and> p' = lastp p ys)"
proof
  assume "(p', xs') \<in> set (rmatch spaces1 (p, xs))"
  then obtain c zs where c: "xs = c # zs" "isSpace c"
      and r: "(p', xs') \<in> set (rmatch (Star (Cls Space)) (Some c, zs))"
    unfolding spaces1_def Plus_def by (auto simp: mem_Cls split: list.splits if_splits)
  from r obtain ys where "zs = ys @ xs'" "\<forall>y\<in>set ys. isSpace y" "p' = lastp (Some c) ys"
    unfolding mem_StarCls by auto
  with c show "\<exists>ys. ys \<noteq> [] \<and> xs = ys @ xs' \<and> (\<forall>y\<in>set ys. isSpace y) \<and> p' = lastp p ys"
    by (intro exI[of _ "c # ys"]) simp
next
  assume "\<exists>ys. ys \<noteq> [] \<and> xs = ys @ xs' \<and> (\<forall>y\<in>set ys. isSpace y) \<and> p' = lastp p ys"
  then obtain ys where ys: "ys \<noteq> []" "xs = ys @ xs'" "\<forall>y\<in>set ys. isSpace y" "p' = lastp p ys"
    by blast
  then obtain c ys' where cy: "ys = c # ys'" by (cases ys) auto
  with ys have "(p', xs') \<in> set (rmatch (Star (Cls Space)) (Some c, ys' @ xs'))"
    unfolding mem_StarCls by auto
  with ys cy show "(p', xs') \<in> set (rmatch spaces1 (p, xs))"
    unfolding spaces1_def Plus_def by auto
qed


lemma concat_map_concat:
  "concat (map f (concat (map g xs))) = concat (map (\<lambda>x. concat (map f (g x))) xs)"
  by (induction xs) auto

lemma rmatch_Seq_assoc: "rmatch (Seq (Seq a b) c) q = rmatch (Seq a (Seq b c)) q"
proof -
  have "rmatch (Seq b c) = (\<lambda>x. concat (map (rmatch c) (rmatch b x)))" by (rule ext) simp
  then show ?thesis by (simp add: concat_map_concat)
qed

lemma concat_map_single: "concat (map (\<lambda>x. [x]) xs) = xs"
  by (induction xs) auto

lemma rmatch_Seq_Eps: "rmatch (Seq r Eps) q = rmatch r q"
proof -
  have "rmatch Eps = (\<lambda>x. [x])" by (rule ext) simp
  then show ?thesis by (simp add: concat_map_single)
qed

lemma SeqE:
  assumes "q' \<in> set (rmatch (Seq r1 r2) q)"
  obtains q1 where "q1 \<in> set (rmatch r1 q)" "q' \<in> set (rmatch r2 q1)"
  using assms by auto

lemma Seq_StrE:
  assumes "q' \<in> set (rmatch (Seq (Str w) r) (p, xs))"
  obtains zs where "xs = w @ zs" "q' \<in> set (rmatch r (lastp p w, zs))"
proof -
  from assms obtain q1 where 1: "q1 \<in> set (rmatch (Str w) (p, xs))" "q' \<in> set (rmatch r q1)"
    by (rule SeqE)
  obtain p1 z1 where q1: "q1 = (p1, z1)" by (cases q1)
  with 1 show ?thesis using that unfolding q1 mem_Str by blast
qed

lemma Seq_ClsE:
  assumes "q' \<in> set (rmatch (Seq (Cls k) r) (p, xs))"
  obtains c zs where "xs = c # zs" "inClass k c" "q' \<in> set (rmatch r (Some c, zs))"
proof -
  from assms obtain q1 where 1: "q1 \<in> set (rmatch (Cls k) (p, xs))" "q' \<in> set (rmatch r q1)"
    by (rule SeqE)
  obtain p1 z1 where q1: "q1 = (p1, z1)" by (cases q1)
  with 1 show ?thesis using that unfolding q1 mem_Cls by blast
qed

lemma Seq_StarClsE:
  assumes "q' \<in> set (rmatch (Seq (Star (Cls k)) r) (p, xs))"
  obtains ys zs where "xs = ys @ zs" "\<forall>y\<in>set ys. inClass k y"
    "q' \<in> set (rmatch r (lastp p ys, zs))"
proof -
  from assms obtain q1 where 1: "q1 \<in> set (rmatch (Star (Cls k)) (p, xs))"
      "q' \<in> set (rmatch r q1)"
    by (rule SeqE)
  obtain p1 z1 where q1: "q1 = (p1, z1)" by (cases q1)
  with 1 show ?thesis using that unfolding q1 mem_StarCls by blast
qed

lemma Seq_spaces1E:
  assumes "q' \<in> set (rmatch (Seq spaces1 r) (p, xs))"
  obtains ys zs where "ys \<noteq> []" "xs = ys @ zs" "\<forall>y\<in>set ys. isSpace y"
    "q' \<in> set (rmatch r (lastp p ys, zs))"
proof -
  from assms obtain q1 where 1: "q1 \<in> set (rmatch spaces1 (p, xs))" "q' \<in> set (rmatch r q1)"
    by (rule SeqE)
  obtain p1 z1 where q1: "q1 = (p1, z1)" by (cases q1)
  with 1 show ?thesis using that unfolding q1 mem_spaces1 by blast
qed

lemma Seq_BolE:
  assumes "q' \<in> set (rmatch (Seq Bol r) q)"
  obtains "atBol q" "q' \<in> set (rmatch r q)"
  using assms by (auto split: if_splits)

lemma Seq_WordBE:
  assumes "q' \<in> set (rmatch (Seq WordB r) q)"
  obtains "wordBefore q \<noteq> wordAfter q" "q' \<in> set (rmatch r q)"
  using assms by (auto split: if_splits)

lemma Seq_LookE:
  assumes "q' \<in> set (rmatch (Seq (Look l) r) q)"
  obtains q1 where "q1 \<in> set (rmatch l q)" "q' \<in> set (rmatch r q)"
  using assms by (cases "rmatch l q") (auto split: if_splits)

lemma Seq_optTypeE:
  assumes "q' \<in> set (rmatch (Seq optType r) (p, xs))"
  obtains ys where "q' \<in> set (rmatch r (lastp p ys, drop (length ys) xs))"
    "xs = ys @ drop (length ys) xs" "123 \<notin> set ys" "125 \<notin> set ys"
    "\<forall>y\<in>set ys. isWordChar y \<or> isSpace y"
proof -
  from assms obtain q1 where 1: "q1 \<in> set (rmatch optType (p, xs))" "q' \<in> set (rmatch r q1)"
    by (rule SeqE)
  from 1(1) consider "q1 = (p, xs)"
    | "q1 \<in> set (rmatch (Seq (Str (js ''type'')) (Seq spaces1 Eps)) (p, xs))"
    unfolding optType_def by (auto simp del: rmatch.simps(4))
  then show ?thesis
  proof cases
    case 1
    with \<open>q' \<in> set (rmatch r q1)\<close> show ?thesis using that[of "[]"] by simp
  next
    case 2
    then obtain zs where zs: "xs = js ''type'' @ zs"
        "q1 \<in> set (rmatch spaces1 (lastp p (js ''type''), zs))"
      unfolding rmatch_Seq_Eps[symmetric, of spaces1] by (rule Seq_StrE)
    obtain p1 z1 where q1: "q1 = (p1, z1)" by (cases q1)
    from zs(2) obtain ys where ys: "ys \<noteq> []" "zs = ys @ z1" "\<forall>y\<in>set ys. isSpace y"
        "p1 = lastp (lastp p (js ''type'')) ys"
      unfolding q1 mem_spaces1 by blast
    have sp: "\<not> isSpace 123" "\<not> isSpace 125"
      by (simp_all add: isSpace_def isWhiteSpace_def isLineTerminator_def)
    have "\<forall>y\<in>set (js ''type''). isWordChar y" by (simp add: js_def isWordChar_def)
    with ys sp have "123 \<notin> set (js ''type'' @ ys)" "125 \<notin> set (js ''type'' @ ys)"
      "\<forall>y\<in>set (js ''type'' @ ys). isWordChar y \<or> isSpace y"
      by (auto simp: js_def)
    moreover have "xs = (js ''type'' @ ys) @ z1" using zs ys by simp
    moreover have "q' \<in> set (rmatch r (lastp p (js ''type'' @ ys), z1))"
      using \<open>q' \<in> set (rmatch r q1)\<close> q1 ys by simp
    ultimately show ?thesis using that[of "js ''type'' @ ys"] by simp
  qed
qed


lemma rmatch_Eps_Seq: "rmatch (Seq Eps r) q = rmatch r q"
  by simp

lemma Seq_wordE:
  assumes "q' \<in> set (rmatch (Seq (word n) r) (p, xs))"
  obtains zs where "xs = js n @ zs" "wordBefore (p, xs) \<noteq> wordAfter (p, xs)"
    "wordBefore (lastp p (js n), zs) \<noteq> wordAfter (lastp p (js n), zs)"
    "q' \<in> set (rmatch r (lastp p (js n), zs))"
proof -
  from assms have "q' \<in> set (rmatch (Seq WordB (Seq (Seq (Str (js n)) (Seq WordB Eps)) r)) (p, xs))"
    unfolding word_def cat.simps rmatch_Seq_assoc .
  then have b1: "wordBefore (p, xs) \<noteq> wordAfter (p, xs)"
    and 1: "q' \<in> set (rmatch (Seq (Seq (Str (js n)) (Seq WordB Eps)) r) (p, xs))"
    by (auto elim: Seq_WordBE)
  from 1 have "q' \<in> set (rmatch (Seq (Str (js n)) (Seq (Seq WordB Eps) r)) (p, xs))"
    unfolding rmatch_Seq_assoc .
  then obtain zs where zs: "xs = js n @ zs"
      and 2: "q' \<in> set (rmatch (Seq (Seq WordB Eps) r) (lastp p (js n), zs))"
    by (rule Seq_StrE)
  from 2 have "q' \<in> set (rmatch (Seq WordB (Seq Eps r)) (lastp p (js n), zs))"
    unfolding rmatch_Seq_assoc .
  then have b2: "wordBefore (lastp p (js n), zs) \<noteq> wordAfter (lastp p (js n), zs)"
    and 3: "q' \<in> set (rmatch (Seq Eps r) (lastp p (js n), zs))"
    by (auto elim: Seq_WordBE)
  from 3 have "q' \<in> set (rmatch r (lastp p (js n), zs))" unfolding rmatch_Eps_Seq .
  with zs b1 b2 show ?thesis using that by blast
qed

lemma detect_shape:
  assumes "q' \<in> set (rmatch (detectRegex n) (p, xs))"
  shows "\<exists>h ws1 ws2 x t. xs = h @ 123 # ws1 @ js n @ ws2 @ x # t
            \<and> (\<forall>y\<in>set ws1. isSpace y) \<and> (\<forall>y\<in>set ws2. isSpace y) \<and> (x = 44 \<or> x = 125)"
proof -
  define r9 where "r9 = cat ([Star (Cls Dot), Str (js ''from''), spaces1] @ specifier)"
  define r8 where "r8 = Seq (Cls (OneOf (js '',}''))) r9"
  define r7 where "r7 = Seq (Star (Cls Space)) r8"
  define r6 where "r6 = Seq (Str (js n)) r7"
  define r5 where "r5 = Seq (Star (Cls Space)) r6"
  define r4 where "r4 = Seq (Str (js ''{'')) r5"
  define r3 where "r3 = Seq (Star (Cls Dot)) r4"
  define r2 where "r2 = Seq spaces1 r3"
  define r1 where "r1 = Seq (Str (js ''import'')) r2"
  have d: "detectRegex n = Seq Bol r1"
    unfolding detectRegex_def r1_def r2_def r3_def r4_def r5_def r6_def r7_def r8_def r9_def
    by simp
  from assms have m1: "q' \<in> set (rmatch r1 (p, xs))"
    unfolding d by (rule Seq_BolE)
  obtain z1 where z1: "xs = js ''import'' @ z1"
    and m2: "q' \<in> set (rmatch r2 (lastp p (js ''import''), z1))"
    using m1 unfolding r1_def by (rule Seq_StrE)
  obtain s1 z2 p2 where z2: "z1 = s1 @ z2" and m3: "q' \<in> set (rmatch r3 (p2, z2))"
    using m2 unfolding r2_def by (rule Seq_spaces1E)
  obtain s2 z3 p3 where z3: "z2 = s2 @ z3" and m4: "q' \<in> set (rmatch r4 (p3, z3))"
    using m3 unfolding r3_def by (rule Seq_StarClsE)
  obtain z4 p4 where z4: "z3 = js ''{'' @ z4" and m5: "q' \<in> set (rmatch r5 (p4, z4))"
    using m4 unfolding r4_def by (rule Seq_StrE)
  obtain ws1 z5 p5 where z5: "z4 = ws1 @ z5" "\<forall>y\<in>set ws1. inClass Space y"
    and m6: "q' \<in> set (rmatch r6 (p5, z5))"
    using m5 unfolding r5_def by (rule Seq_StarClsE)
  obtain z6 p6 where z6: "z5 = js n @ z6" and m7: "q' \<in> set (rmatch r7 (p6, z6))"
    using m6 unfolding r6_def by (rule Seq_StrE)
  obtain ws2 z7 p7 where z7: "z6 = ws2 @ z7" "\<forall>y\<in>set ws2. inClass Space y"
    and m8: "q' \<in> set (rmatch r8 (p7, z7))"
    using m7 unfolding r7_def by (rule Seq_StarClsE)
  obtain x z8 where z8: "z7 = x # z8" "inClass (OneOf (js '',}'')) x"
    using m8 unfolding r8_def by (rule Seq_ClsE)
  have "xs = (js ''import'' @ s1 @ s2) @ 123 # ws1 @ js n @ ws2 @ x # z8"
    using z1 z2 z3 z4 z5 z6 z7 z8 by (simp add: js_def)
  moreover have "x = 44 \<or> x = 125" using z8(2) by (simp add: js_def)
  moreover have "\<forall>y\<in>set ws1. isSpace y" "\<forall>y\<in>set ws2. isSpace y"
    using z5(2) z7(2) by simp_all
  ultimately show ?thesis by blast
qed

lemma firstNameI:
  assumes "\<forall>y\<in>set ws1. isSpace y" "\<forall>y\<in>set ws2. isSpace y" "x = 44 \<or> x = 125"
    "n \<noteq> []" "\<not> isSpace (hd n)"
  shows "firstName n (ws1 @ n @ ws2 @ x # t)"
proof -
  have 1: "dropWhile isSpace (ws1 @ n @ ws2 @ x # t) = n @ ws2 @ x # t"
    using assms(1,4,5) by (cases n) (simp_all add: dropWhile_append2)
  have "\<not> isSpace x"
    using assms(3) by (auto simp: isSpace_def isWhiteSpace_def isLineTerminator_def)
  then have 2: "dropWhile isSpace (ws2 @ x # t) = x # t"
    using assms(2) by (simp add: dropWhile_append2)
  show ?thesis unfolding firstName_def Let_def 1 using 2 assms(3)
    by (simp add: startsWith_def)
qed

lemma bracedFirst_append: "firstName n t \<Longrightarrow> bracedFirst n (h @ 123 # t)"
  by (induction h) auto

lemma detect_bracedFirst:
  assumes "test (detectRegex n) c" "js n \<noteq> []" "\<not> isSpace (hd (js n))"
  shows "bracedFirst (js n) c"
proof -
  from assms(1) obtain ys zs where c: "c = ys @ zs"
      and "rmatch (detectRegex n) (lastp None ys, zs) \<noteq> []"
    unfolding test_def search_iff by blast
  then obtain q' where "q' \<in> set (rmatch (detectRegex n) (lastp None ys, zs))"
    by (cases "rmatch (detectRegex n) (lastp None ys, zs)") auto
  from detect_shape[OF this] obtain h ws1 ws2 x t where
    zs: "zs = h @ 123 # ws1 @ js n @ ws2 @ x # t"
    and w: "\<forall>y\<in>set ws1. isSpace y" "\<forall>y\<in>set ws2. isSpace y" "x = 44 \<or> x = 125"
    by blast
  have "bracedFirst (js n) ((ys @ h) @ 123 # ws1 @ js n @ ws2 @ x # t)"
    by (rule bracedFirst_append[OF firstNameI[OF w assms(2,3)]])
  then show ?thesis using c zs by simp
qed

lemma hasInternalImport_bracedFirst: "hasInternalImport c \<Longrightarrow> bracedFirst (js ''internal'') c"
  unfolding hasInternalImport_def
  by (rule detect_bracedFirst)
     (simp_all add: js_def isSpace_def isWhiteSpace_def isLineTerminator_def)

lemma hasApiImport_bracedFirst: "hasApiImport c \<Longrightarrow> bracedFirst (js ''api'') c"
  unfolding hasApiImport_def
  by (rule detect_bracedFirst)
     (simp_all add: js_def isSpace_def isWhiteSpace_def isLineTerminator_def)


lemma not_word_chars: "\<not> isWordChar 32" "\<not> isWordChar 123" "\<not> isWordChar 125"
  by (simp_all add: isWordChar_def)

lemma split_first:
  "a @ x # b = a' @ x # b' \<Longrightarrow> x \<notin> set a \<Longrightarrow> x \<notin> set a' \<Longrightarrow> a = a' \<and> b = b'"
proof (induction a arbitrary: a')
  case Nil then show ?case by (cases a') auto
next
  case (Cons y a) then show ?case by (cases a') auto
qed

lemma first_occurrence:
  assumes "a @ b = w @ x # t" "x \<notin> set a" "x \<notin> set w"
  shows "\<exists>v. w = a @ v \<and> b = v @ x # t"
  using assms
proof (induction a arbitrary: w)
  case Nil then show ?case by simp
next
  case (Cons y a)
  then obtain w' where w: "w = y # w'" by (cases w) auto
  with Cons.prems have "a @ b = w' @ x # t" "x \<notin> set a" "x \<notin> set w'" by auto
  from Cons.IH[OF this] w show ?case by auto
qed

lemma word_in_padded:
  assumes e: "u @ n @ v = 32 # N @ [32]" and n: "n \<noteq> []" "\<forall>x\<in>set n. isWordChar x"
    and N: "\<forall>x\<in>set N. isWordChar x"
    and b1: "u = [] \<or> \<not> isWordChar (last u)" and b2: "v = [] \<or> \<not> isWordChar (hd v)"
  shows "N = n"
proof -
  have hn: "isWordChar (hd n)" "isWordChar (last n)" using n by simp_all
  have "u \<noteq> []"
  proof
    assume "u = []"
    with e n have "hd n = 32" by (cases n) auto
    with hn not_word_chars show False by simp
  qed
  then obtain u' where u: "u = 32 # u'" using e by (cases u) auto
  with e have e1: "u' @ n @ v = N @ [32]" by simp
  have "v \<noteq> []"
  proof
    assume "v = []"
    with e1 n have "last n = 32" by (metis append_Nil2 last_appendR last_snoc)
    with hn not_word_chars show False by simp
  qed
  then obtain v' where v: "v = v' @ [32]"
    using e1 by (metis append_butlast_last_id last_appendR last_snoc n(1) append_is_Nil_conv)
  with e1 have e2: "u' @ n @ v' = N" by simp
  have "u' = []"
  proof (rule ccontr)
    assume a: "u' \<noteq> []"
    then have "last u' \<in> set N" using e2 by auto
    moreover have "last u = last u'" using u a by simp
    ultimately show False using b1 u N by auto
  qed
  moreover have "v' = []"
  proof (rule ccontr)
    assume a: "v' \<noteq> []"
    then have "hd v' \<in> set N" using e2 by auto
    moreover have "hd v = hd v'" using v a by simp
    ultimately show False using b2 v N by auto
  qed
  ultimately show ?thesis using e2 by simp
qed

lemma boundary_before:
  assumes "wordBefore (lastp (Some 123) u, n @ zs) \<noteq> wordAfter (lastp (Some 123) u, n @ zs)"
    "n \<noteq> []" "\<forall>x\<in>set n. isWordChar x"
  shows "u = [] \<or> \<not> isWordChar (last u)"
proof -
  have "wordAfter (lastp (Some 123) u, n @ zs)"
    using assms(2,3) by (cases n) (auto simp: wordAfter_def)
  with assms(1) have "\<not> wordBefore (lastp (Some 123) u, n @ zs)" by simp
  then show ?thesis by (auto simp: wordBefore_def lastp_def split: if_splits)
qed

lemma boundary_after:
  assumes "wordBefore (lastp p n, v @ 125 # t) \<noteq> wordAfter (lastp p n, v @ 125 # t)"
    "n \<noteq> []" "\<forall>x\<in>set n. isWordChar x"
  shows "v = [] \<or> \<not> isWordChar (hd v)"
proof -
  have "wordBefore (lastp p n, v @ 125 # t)"
    using assms(2,3) by (auto simp: wordBefore_def lastp_def)
  with assms(1) have "\<not> wordAfter (lastp p n, v @ 125 # t)" by simp
  then show ?thesis by (cases v) (auto simp: wordAfter_def)
qed

lemma nameImport_shape:
  assumes "q' \<in> set (rmatch (nameImportRegex n) (p, xs))"
    and n: "js n \<noteq> []" "\<forall>x\<in>set (js n). isWordChar x"
  shows "\<exists>h u v t. xs = h @ 123 # u @ js n @ v @ 125 # t \<and> 123 \<notin> set h
            \<and> 125 \<notin> set u \<and> 125 \<notin> set v
            \<and> (u = [] \<or> \<not> isWordChar (last u)) \<and> (v = [] \<or> \<not> isWordChar (hd v))"
proof -
  define r9 where "r9 = cat ([spaces1, Str (js ''from''), spaces1]
          @ specifier @ [Opt (Str (js '';'')), Star (Cls Dot), Eol])"
  define r8 where "r8 = Seq (Str (js ''}'')) r9"
  define r7 where "r7 = Seq (Star (Cls (NoneOf (js ''}'')))) r8"
  define r6 where "r6 = Seq (word n) r7"
  define r5 where "r5 = Seq (Star (Cls (NoneOf (js ''}'')))) r6"
  define r4 where "r4 = Seq (Str (js ''{'')) r5"
  define r3 where "r3 = Seq optType r4"
  define r2 where "r2 = Seq spaces1 r3"
  define r1 where "r1 = Seq (Str (js ''import'')) r2"
  have d: "nameImportRegex n = Seq Bol r1"
    unfolding nameImportRegex_def r1_def r2_def r3_def r4_def r5_def r6_def r7_def r8_def r9_def
      notBrace_def
    by simp
  from assms(1) have m1: "q' \<in> set (rmatch r1 (p, xs))"
    unfolding d by (rule Seq_BolE)
  obtain z1 where z1: "xs = js ''import'' @ z1"
    and m2: "q' \<in> set (rmatch r2 (lastp p (js ''import''), z1))"
    using m1 unfolding r1_def by (rule Seq_StrE)
  obtain s1 z2 p2 where z2: "z1 = s1 @ z2" "\<forall>y\<in>set s1. isSpace y"
    and m3: "q' \<in> set (rmatch r3 (p2, z2))"
    using m2 unfolding r2_def by (rule Seq_spaces1E)
  obtain ty p3 where z3: "z2 = ty @ drop (length ty) z2" "123 \<notin> set ty"
    and m4: "q' \<in> set (rmatch r4 (p3, drop (length ty) z2))"
    using m3 unfolding r3_def by (rule Seq_optTypeE)
  obtain z4 where z4: "drop (length ty) z2 = js ''{'' @ z4"
    and m5: "q' \<in> set (rmatch r5 (lastp p3 (js ''{''), z4))"
    using m4 unfolding r4_def by (rule Seq_StrE)
  have p4: "lastp p3 (js ''{'') = Some 123" by (simp add: js_def)
  obtain u z5 where z5: "z4 = u @ z5" "\<forall>y\<in>set u. inClass (NoneOf (js ''}'')) y"
    and m6: "q' \<in> set (rmatch r6 (lastp (Some 123) u, z5))"
    using m5 unfolding r5_def p4 by (rule Seq_StarClsE)
  obtain z6 where z6: "z5 = js n @ z6"
    and b1: "wordBefore (lastp (Some 123) u, z5) \<noteq> wordAfter (lastp (Some 123) u, z5)"
    and b2: "wordBefore (lastp (lastp (Some 123) u) (js n), z6)
              \<noteq> wordAfter (lastp (lastp (Some 123) u) (js n), z6)"
    and m7: "q' \<in> set (rmatch r7 (lastp (lastp (Some 123) u) (js n), z6))"
    using m6 unfolding r6_def by (rule Seq_wordE)
  obtain v z7 p7 where z7: "z6 = v @ z7" "\<forall>y\<in>set v. inClass (NoneOf (js ''}'')) y"
    and m8: "q' \<in> set (rmatch r8 (p7, z7))"
    using m7 unfolding r7_def by (rule Seq_StarClsE)
  obtain z8 where z8: "z7 = js ''}'' @ z8"
    using m8 unfolding r8_def by (rule Seq_StrE)
  have sp: "\<not> isSpace 123"
    by (simp add: isSpace_def isWhiteSpace_def isLineTerminator_def)
  have e: "xs = (js ''import'' @ s1 @ ty) @ 123 # u @ js n @ v @ 125 # z8"
    using z1 z2(1) z3(1) z4 z5(1) z6 z7(1) z8 by (simp add: js_def)
  have h: "123 \<notin> set (js ''import'' @ s1 @ ty)"
    using z2(2) z3(2) sp by (auto simp: js_def)
  have uv: "125 \<notin> set u" "125 \<notin> set v" using z5(2) z7(2) by (auto simp: js_def)
  have c1: "u = [] \<or> \<not> isWordChar (last u)"
    using b1 unfolding z6 by (rule boundary_before[OF _ n])
  have z78: "z6 = v @ 125 # z8" using z7(1) z8 by (simp add: js_def)
  have c2: "v = [] \<or> \<not> isWordChar (hd v)"
    using b2 unfolding z78 by (rule boundary_after[OF _ n])
  show ?thesis using e h uv c1 c2 by blast
qed


lemma combined_shape:
  assumes "q' \<in> set (rmatch sameLineCombinedRegex (p, xs))"
  shows "\<exists>h u v t. xs = h @ 123 # u @ js ''internal'' @ v @ 125 # t \<and> 123 \<notin> set h
            \<and> 125 \<notin> set u \<and> 125 \<notin> set v
            \<and> (u = [] \<or> \<not> isWordChar (last u)) \<and> (v = [] \<or> \<not> isWordChar (hd v))"
proof -
  have n: "js ''internal'' \<noteq> []" "\<forall>x\<in>set (js ''internal''). isWordChar x"
    by (simp_all add: js_def isWordChar_def)
  define r9 where "r9 = cat ([spaces1, Str (js ''from''), spaces1]
          @ specifier @ [Opt (Str (js '';'')), Star (Cls Dot), Eol])"
  define r8 where "r8 = Seq (Str (js ''}'')) r9"
  define r7 where "r7 = Seq (Star (Cls (NoneOf (js ''}'')))) r8"
  define l2 where "l2 = cat [notBrace, word ''api'']"
  define r6 where "r6 = Seq (Look l2) r7"
  define l1 where "l1 = Seq (Star (Cls (NoneOf (js ''}'')))) (Seq (word ''internal'') Eps)"
  define r5 where "r5 = Seq (Look l1) r6"
  define r4 where "r4 = Seq (Str (js ''{'')) r5"
  define r3 where "r3 = Seq optType r4"
  define r2 where "r2 = Seq spaces1 r3"
  define r1 where "r1 = Seq (Str (js ''import'')) r2"
  have d: "sameLineCombinedRegex = Seq Bol r1"
    unfolding sameLineCombinedRegex_def r1_def r2_def r3_def r4_def r5_def r6_def r7_def
      r8_def r9_def l1_def l2_def notBrace_def
    by simp
  from assms(1) have m1: "q' \<in> set (rmatch r1 (p, xs))"
    unfolding d by (rule Seq_BolE)
  obtain z1 where z1: "xs = js ''import'' @ z1"
    and m2: "q' \<in> set (rmatch r2 (lastp p (js ''import''), z1))"
    using m1 unfolding r1_def by (rule Seq_StrE)
  obtain s1 z2 p2 where z2: "z1 = s1 @ z2" "\<forall>y\<in>set s1. isSpace y"
    and m3: "q' \<in> set (rmatch r3 (p2, z2))"
    using m2 unfolding r2_def by (rule Seq_spaces1E)
  obtain ty p3 where z3: "z2 = ty @ drop (length ty) z2" "123 \<notin> set ty"
    and m4: "q' \<in> set (rmatch r4 (p3, drop (length ty) z2))"
    using m3 unfolding r3_def by (rule Seq_optTypeE)
  obtain z4 where z4: "drop (length ty) z2 = js ''{'' @ z4"
    and m5: "q' \<in> set (rmatch r5 (lastp p3 (js ''{''), z4))"
    using m4 unfolding r4_def by (rule Seq_StrE)
  have p4: "lastp p3 (js ''{'') = Some 123" by (simp add: js_def)
  obtain q1 where k1: "q1 \<in> set (rmatch l1 (Some 123, z4))"
    and m6: "q' \<in> set (rmatch r6 (Some 123, z4))"
    using m5 unfolding r5_def p4 by (rule Seq_LookE)
  obtain u z5 where z5: "z4 = u @ z5" "\<forall>y\<in>set u. inClass (NoneOf (js ''}'')) y"
    and k2: "q1 \<in> set (rmatch (Seq (word ''internal'') Eps) (lastp (Some 123) u, z5))"
    using k1 unfolding l1_def by (rule Seq_StarClsE)
  obtain z6 where z6: "z5 = js ''internal'' @ z6"
    and b1: "wordBefore (lastp (Some 123) u, z5) \<noteq> wordAfter (lastp (Some 123) u, z5)"
    and b2: "wordBefore (lastp (lastp (Some 123) u) (js ''internal''), z6)
              \<noteq> wordAfter (lastp (lastp (Some 123) u) (js ''internal''), z6)"
    using k2 by (rule Seq_wordE)
  obtain q2 where m7: "q' \<in> set (rmatch r7 (Some 123, z4))"
    using m6 unfolding r6_def by (rule Seq_LookE)
  obtain w z7 p7 where z7: "z4 = w @ z7" "\<forall>y\<in>set w. inClass (NoneOf (js ''}'')) y"
    and m8: "q' \<in> set (rmatch r8 (p7, z7))"
    using m7 unfolding r7_def by (rule Seq_StarClsE)
  obtain z8 where z8: "z7 = js ''}'' @ z8"
    using m8 unfolding r8_def by (rule Seq_StrE)
  have w: "125 \<notin> set w" and u: "125 \<notin> set (u @ js ''internal'')"
    using z7(2) z5(2) by (auto simp: js_def)
  have "(u @ js ''internal'') @ z6 = w @ 125 # z8"
    using z5(1) z6 z7(1) z8 by (simp add: js_def)
  from first_occurrence[OF this u w] obtain v where v: "w = (u @ js ''internal'') @ v"
      "z6 = v @ 125 # z8"
    by blast
  have sp: "\<not> isSpace 123"
    by (simp add: isSpace_def isWhiteSpace_def isLineTerminator_def)
  have e: "xs = (js ''import'' @ s1 @ ty) @ 123 # u @ js ''internal'' @ v @ 125 # z8"
    using z1 z2(1) z3(1) z4 z5(1) z6 v(2) by (simp add: js_def)
  have h: "123 \<notin> set (js ''import'' @ s1 @ ty)"
    using z2(2) z3(2) sp by (auto simp: js_def)
  have uv: "125 \<notin> set u" "125 \<notin> set v" using u w v(1) by auto
  have c1: "u = [] \<or> \<not> isWordChar (last u)"
    using b1 unfolding z6 by (rule boundary_before[OF _ n])
  have c2: "v = [] \<or> \<not> isWordChar (hd v)"
    using b2 unfolding v(2) by (rule boundary_after[OF _ n])
  show ?thesis using e h uv c1 c2 by blast
qed

lemma importOf_split:
  "importOf N = js ''import '' @ 123 # (32 # N @ [32]) @ 125 # js '' from \"../_generated/api\";''"
  by (simp add: importOf_def js_def)

lemma importOf_no_terminator:
  "\<forall>x\<in>set N. isWordChar x \<or> x = 36 \<Longrightarrow> \<forall>x\<in>set (importOf N). \<not> isLineTerminator x"
  by (auto simp: importOf_def js_def isLineTerminator_def isWordChar_def)

lemma match_at_start:
  assumes "c = ys @ zs" "atBol (lastp None ys, zs)" "\<forall>x\<in>set c. \<not> isLineTerminator x"
  shows "ys = []"
proof (rule ccontr)
  assume "ys \<noteq> []"
  then have "lastp None ys = Some (last ys)" "last ys \<in> set c"
    using assms(1) by (auto simp: lastp_def)
  with assms(2,3) show False by (auto simp: atBol_def)
qed

lemma shape_not_in_importOf:
  assumes N: "\<forall>x\<in>set N. isWordChar x" "N \<noteq> n" and n: "n \<noteq> []" "\<forall>x\<in>set n. isWordChar x"
    and e: "importOf N = h @ 123 # u @ n @ v @ 125 # t" and h: "123 \<notin> set h"
    and uv: "125 \<notin> set u" "125 \<notin> set v"
    and b: "u = [] \<or> \<not> isWordChar (last u)" "v = [] \<or> \<not> isWordChar (hd v)"
  shows False
proof -
  have nb: "123 \<notin> set (js ''import '')" by (simp add: js_def)
  have "h @ 123 # (u @ n @ v @ 125 # t)
      = js ''import '' @ 123 # ((32 # N @ [32]) @ 125 # js '' from \"../_generated/api\";'')"
    using e unfolding importOf_split by simp
  from split_first[OF this h nb]
  have 1: "(u @ n @ v) @ 125 # t = (32 # N @ [32]) @ 125 # js '' from \"../_generated/api\";''"
    by simp
  have "125 \<notin> set (u @ n @ v)" using uv n(2) not_word_chars by auto
  moreover have "125 \<notin> set (32 # N @ [32])" using N(1) not_word_chars by auto
  ultimately have "u @ n @ v = 32 # N @ [32]" using split_first[OF 1] by blast
  from word_in_padded[OF this n N(1) b] N(2) show False by simp
qed

lemma importOf_no_name_match:
  assumes N: "\<forall>x\<in>set N. isWordChar x" "N \<noteq> js n"
    and n: "js n \<noteq> []" "\<forall>x\<in>set (js n). isWordChar x"
  shows "\<not> test (nameImportRegex n) (importOf N)"
proof
  assume "test (nameImportRegex n) (importOf N)"
  then obtain ys zs where c: "importOf N = ys @ zs"
      and "rmatch (nameImportRegex n) (lastp None ys, zs) \<noteq> []"
    unfolding test_def search_iff by blast
  then obtain q' where q: "q' \<in> set (rmatch (nameImportRegex n) (lastp None ys, zs))"
    by (cases "rmatch (nameImportRegex n) (lastp None ys, zs)") auto
  have "atBol (lastp None ys, zs)"
    using wholeLines_name[of n] q unfolding wholeLines_def by blast
  from match_at_start[OF c this] importOf_no_terminator[of N] N(1)
  have ys: "ys = []" by blast
  from nameImport_shape[OF q n] obtain h u v t where
    "zs = h @ 123 # u @ js n @ v @ 125 # t" "123 \<notin> set h" "125 \<notin> set u" "125 \<notin> set v"
    "u = [] \<or> \<not> isWordChar (last u)" "v = [] \<or> \<not> isWordChar (hd v)"
    by blast
  with c ys show False using shape_not_in_importOf[OF N n, of h u v t] by simp
qed

lemma importOf_no_combined_match:
  assumes N: "\<forall>x\<in>set N. isWordChar x" "N \<noteq> js ''internal''"
  shows "\<not> test sameLineCombinedRegex (importOf N)"
proof
  have n: "js ''internal'' \<noteq> []" "\<forall>x\<in>set (js ''internal''). isWordChar x"
    by (simp_all add: js_def isWordChar_def)
  assume "test sameLineCombinedRegex (importOf N)"
  then obtain ys zs where c: "importOf N = ys @ zs"
      and "rmatch sameLineCombinedRegex (lastp None ys, zs) \<noteq> []"
    unfolding test_def search_iff by blast
  then obtain q' where q: "q' \<in> set (rmatch sameLineCombinedRegex (lastp None ys, zs))"
    by (cases "rmatch sameLineCombinedRegex (lastp None ys, zs)") auto
  have "atBol (lastp None ys, zs)"
    using wholeLines_combined q unfolding wholeLines_def by blast
  from match_at_start[OF c this] importOf_no_terminator[of N] N(1)
  have ys: "ys = []" by blast
  from combined_shape[OF q] obtain h u v t where
    "zs = h @ 123 # u @ js ''internal'' @ v @ 125 # t" "123 \<notin> set h" "125 \<notin> set u"
    "125 \<notin> set v" "u = [] \<or> \<not> isWordChar (last u)" "v = [] \<or> \<not> isWordChar (hd v)"
    by blast
  with c ys show False using shape_not_in_importOf[OF N n, of h u v t] by simp
qed


lemma bracedFirst_skip: "123 \<notin> set a \<Longrightarrow> bracedFirst n (a @ b) = bracedFirst n b"
  by (induction a) auto

lemma bracedFirst_none: "123 \<notin> set xs \<Longrightarrow> \<not> bracedFirst n xs"
  by (induction xs) auto

lemma idChar_facts:
  assumes "isWordChar x \<or> x = 36"
  shows "\<not> isSpace x" "x \<noteq> 44" "x \<noteq> 125" "x \<noteq> 123"
  using assms by (auto simp: isWordChar_def isSpace_def isWhiteSpace_def isLineTerminator_def)

lemma importOf_not_firstName:
  assumes N: "N \<noteq> []" "\<forall>x\<in>set N. isWordChar x \<or> x = 36" "N \<noteq> n"
    and n: "\<forall>x\<in>set n. isWordChar x"
  shows "\<not> firstName n (32 # N @ js '' } from \"../_generated/api\";'')"
proof
  let ?tail = "js '' } from \"../_generated/api\";''"
  assume a: "firstName n (32 # N @ ?tail)"
  have hN: "\<not> isSpace (hd N)" using N(1,2) idChar_facts(1) by (cases N) auto
  have sp: "isSpace 32" by (simp add: isSpace_def isWhiteSpace_def)
  have d: "dropWhile isSpace (32 # N @ ?tail) = N @ ?tail"
    using hN N(1) sp by (cases N) auto
  from a have s: "startsWith (N @ ?tail) n"
    and k: "(case dropWhile isSpace (drop (length n) (N @ ?tail)) of [] \<Rightarrow> False
             | y # _ \<Rightarrow> y = 44 \<or> y = 125)"
    unfolding firstName_def Let_def d by simp_all
  from s obtain b where "N @ ?tail = n @ b" unfolding startsWith_iff by blast
  then consider us where "N = n @ us" "us @ ?tail = b" | us where "N @ us = n" "?tail = us @ b"
    unfolding append_eq_append_conv2 by blast
  then show False
  proof cases
    case 1
    with N(3) have ne: "us \<noteq> []" by auto
    then have "hd us \<in> set N" using 1(1) by (cases us) auto
    then have c: "\<not> isSpace (hd us)" "hd us \<noteq> 44" "hd us \<noteq> 125"
      using N(2) idChar_facts by blast+
    have "drop (length n) (N @ ?tail) = us @ ?tail" using 1(1) by simp
    moreover have "dropWhile isSpace (us @ ?tail) = us @ ?tail"
      using ne c(1) by (cases us) auto
    ultimately show False using k ne c by (cases us) auto
  next
    case 2
    with N(3) have ne: "us \<noteq> []" by auto
    then have "hd us \<in> set n" using 2(1) by (cases us) auto
    then have "isWordChar (hd us)" using n by blast
    moreover have "hd us = 32" using 2(2) ne by (cases us) (auto simp: js_def)
    ultimately show False using not_word_chars by simp
  qed
qed

lemma importOf_not_bracedFirst:
  assumes N: "N \<noteq> []" "\<forall>x\<in>set N. isWordChar x \<or> x = 36" "N \<noteq> n"
    and n: "\<forall>x\<in>set n. isWordChar x"
  shows "\<not> bracedFirst n (importOf N)"
proof -
  let ?rest = "32 # N @ js '' } from \"../_generated/api\";''"
  have e: "importOf N = js ''import '' @ 123 # ?rest" by (simp add: importOf_def js_def)
  have "123 \<notin> set ?rest" using N(2) idChar_facts(4) by (auto simp: js_def)
  then have "\<not> bracedFirst n ?rest" by (rule bracedFirst_none)
  moreover have "\<not> firstName n ?rest" by (rule importOf_not_firstName[OF N n])
  moreover have "bracedFirst n (importOf N) = bracedFirst n (123 # ?rest)"
    unfolding e by (rule bracedFirst_skip) (simp add: js_def)
  ultimately show ?thesis by simp
qed

lemma unbraced_unchanged:
  assumes "\<not> bracedFirst (js ''internal'') c" "\<not> bracedFirst (js ''api'') c"
  shows "\<not> hasInternalImport c \<and> \<not> hasApiImport c
         \<and> newContent (processFile d c) = c \<and> \<not> modified (processFile d c)"
proof -
  have "\<not> hasInternalImport c" "\<not> hasApiImport c"
    using assms hasInternalImport_bracedFirst hasApiImport_bracedFirst by blast+
  then show ?thesis by (simp add: processFile_def)
qed

section \<open>Evaluation of the script on sample files\<close>

lemmas ev = js_def isLineTerminator_def isWhiteSpace_def isSpace_def isWordChar_def Plus_def
  atBol_def atEol_def wordBefore_def wordAfter_def startsWith_def test_def replace_def
  quote_def spaces1_def specifier_def word_def notBrace_def optType_def detectRegex_def
  hasInternalImport_def hasApiImport_def sameLineCombinedRegex_def combinedImportRegex_def
  nameImportRegex_def internalImportRegex_def apiImportRegex_def relPath_def importPath_def
  marker_def combinedText_def internalText_def apiText_def finish_def
  importRegex_v1_def combinedImportRegex_v1_def internalImportRegex_v1_def apiImportRegex_v1_def
  rmatch.simps(6) replaceAll.simps

text \<open>The single-name sample of the specification, in a file one directory below \<open>convex\<close>.\<close>

lemma sample_internal:
  "processFile 1 (js ''import { internal } from \"../_generated/api\";'')
   = \<lparr>newContent = internalText (importPath 1), modified = True, outcome = Fixed\<rparr>"
proof -
  let ?c = "js ''import { internal } from \"../_generated/api\";''"
  have 1: "\<not> includes_str ?c marker" by (simp add: ev)
  have 2: "hasInternalImport ?c" by (simp add: ev)
  have 3: "\<not> hasApiImport ?c" by (simp add: ev)
  have 4: "\<not> test sameLineCombinedRegex ?c" by (simp add: ev)
  have 5: "test internalImportRegex ?c" by (simp add: ev)
  have 6: "replace ?c internalImportRegex rep = rep" for rep by (simp add: ev)
  have 7: "?c \<noteq> internalText (importPath 1)" by (simp add: ev)
  show ?thesis unfolding processFile_def using 1 2 3 4 5 6 7 by (simp add: finish_def Let_def)
qed

lemma sample_internal_unpatched:
  "\<not> includes_str (js ''import { internal } from \"../_generated/api\";'') marker"
  by (simp add: ev)

lemma sample_internal_changed:
  "internalText (importPath 1) \<noteq> js ''import { internal } from \"../_generated/api\";''"
  by (simp add: ev)

lemmas samples = sampleSpanning_def sampleDefault_def sampleNonAdjacent_def sampleCombined_def samplePrecedence_def sampleSeparate_def sampleEdited_def
  sampleLater_def sampleLaterBoth_def samplePatchedCombined_def samplePatchedSeparate_def
  sampleMultiLine_def sampleBlank_def

lemma sample_later:
  "\<not> includes_str sampleLater marker" "\<not> hasInternalImport sampleLater"
  "\<not> hasApiImport sampleLater" "test internalImportRegex sampleLater"
  by (simp_all add: ev samples)

lemma sample_default:
  "\<not> includes_str sampleDefault marker" "hasInternalImport sampleDefault"
  "\<not> hasApiImport sampleDefault" "\<not> test sameLineCombinedRegex sampleDefault"
  "\<not> test internalImportRegex sampleDefault"
  by (simp_all add: ev samples)

lemma sample_later_both:
  "\<not> includes_str sampleLaterBoth marker" "\<not> hasInternalImport sampleLaterBoth"
  "\<not> hasApiImport sampleLaterBoth" "test sameLineCombinedRegex sampleLaterBoth"
  by (simp_all add: ev samples)

lemma sample_combined_later:
  "\<not> includes_str sampleCombinedLater marker" "\<not> hasInternalImport sampleCombinedLater"
  "\<not> hasApiImport sampleCombinedLater" "test sameLineCombinedRegex sampleCombinedLater"
  "replace sampleCombinedLater combinedImportRegex rep = rep"
  by (simp_all add: ev sampleCombinedLater_def)

lemma sample_combined:
  "\<not> includes_str sampleCombined marker" "\<not> hasInternalImport sampleCombined"
  "hasApiImport sampleCombined" "test sameLineCombinedRegex sampleCombined"
  "replace sampleCombined combinedImportRegex rep = rep"
  "test apiImportRegex_v1 sampleCombined"
  "replace sampleCombined apiImportRegex_v1 rep = rep"
  by (simp_all add: ev samples)

lemma sample_precedence:
  "\<not> includes_str samplePrecedence marker" "hasInternalImport samplePrecedence"
  "hasApiImport samplePrecedence" "test sameLineCombinedRegex samplePrecedence"
  "replace samplePrecedence combinedImportRegex rep
     = rep @ js ''\<newline>import { internal } from \"./_generated/api\";\<newline>import { api } from \"./_generated/api\";\<newline>''"
  by (simp_all add: ev samples)

lemma sample_non_adjacent:
  "\<not> includes_str sampleNonAdjacent marker" "hasInternalImport sampleNonAdjacent"
  "test sameLineCombinedRegex sampleNonAdjacent"
  "replace sampleNonAdjacent combinedImportRegex rep = rep"
  by (simp_all add: ev samples)

lemma sample_separate:
  "\<not> includes_str sampleSeparate marker" "hasInternalImport sampleSeparate"
  "hasApiImport sampleSeparate" "\<not> test sameLineCombinedRegex sampleSeparate"
  "replace sampleSeparate internalImportRegex rep
     = rep @ js ''\<newline>import { api } from \"../_generated/api\";\<newline>''"
  by (simp_all add: ev samples)

lemma sample_separate2:
  "replace (internalText (importPath 1) @ js ''\<newline>import { api } from \"../_generated/api\";\<newline>'')
      apiImportRegex rep = internalText (importPath 1) @ [10] @ rep @ [10]"
  by (simp add: ev samples)

lemma sample_edited:
  "\<not> includes_str sampleEdited marker" "hasInternalImport sampleEdited"
  "hasApiImport sampleEdited" "\<not> test sameLineCombinedRegex sampleEdited"
  "\<not> test apiImportRegex sampleEdited"
  "replace sampleEdited internalImportRegex rep
     = rep @ js ''\<newline>import client, { api } from \"../_generated/api\";\<newline>''"
  by (simp_all add: ev samples)

lemma sample_edited2:
  "\<not> test apiImportRegex (internalText (importPath 1) @ js ''\<newline>import client, { api } from \"../_generated/api\";\<newline>'')"
  by (simp add: ev samples)

lemma sample_patched:
  "includes_str samplePatchedCombined marker" "test sameLineCombinedRegex samplePatchedCombined"
  "includes_str samplePatchedSeparate marker" "hasInternalImport samplePatchedSeparate"
  "hasApiImport samplePatchedSeparate" "\<not> test sameLineCombinedRegex samplePatchedSeparate"
  "test internalImportRegex samplePatchedSeparate" "test apiImportRegex samplePatchedSeparate"
  by (simp_all add: ev samples)

lemma sample_spanning:
  "\<not> includes_str sampleSpanning marker" "hasInternalImport sampleSpanning"
  "hasApiImport sampleSpanning" "test sameLineCombinedRegex sampleSpanning"
  "list_all (\<lambda>l. \<not> test sameLineCombinedRegex l) (linesOf sampleSpanning)"
  "replace sampleSpanning combinedImportRegex rep
     = js ''import { internal } from \"../_generated/api\";\<newline>import { api } from \"../_generated/api\";\<newline>'' @ rep"
  by (simp_all add: ev samples)

lemma sample_multi:
  "\<not> includes_str sampleMultiLine marker" "hasInternalImport sampleMultiLine"
  "\<not> hasApiImport sampleMultiLine" "\<not> test sameLineCombinedRegex sampleMultiLine"
  "test internalImportRegex sampleMultiLine"
  "replace sampleMultiLine internalImportRegex rep = rep @ [10]"
  "\<not> test internalImportRegex (js ''import {'')" "\<not> test apiImportRegex (js ''import {'')"
  "\<not> test combinedImportRegex (js ''import {'')"
  "\<not> test internalImportRegex (js ''  internal'')" "\<not> test apiImportRegex (js ''  internal'')"
  "\<not> test combinedImportRegex (js ''  internal'')"
  by (simp_all add: ev samples)

lemma sample_blank:
  "\<not> includes_str sampleBlank marker" "hasInternalImport sampleBlank"
  "\<not> hasApiImport sampleBlank" "\<not> test sameLineCombinedRegex sampleBlank"
  "test internalImportRegex sampleBlank" "test internalImportRegex_v1 sampleBlank"
  "replace sampleBlank internalImportRegex rep = rep @ js ''\<newline>\<newline>export const x = 1;\<newline>''"
  "replace sampleBlank internalImportRegex_v1 rep = rep @ js ''\<newline>export const x = 1;\<newline>''"
  by (simp_all add: ev samples)

lemma combined_block:
  "includes_str (combinedText (importPath 0))
     (js ''const internal = require('./_generated/api.js').internal as any;'')"
  "includes_str (combinedText (importPath 0))
     (js ''const api = require('./_generated/api.js').api as any;'')"
  "\<not> includes_str (combinedText (importPath 0)) sampleCombined"
  "countOcc (combinedText (importPath 0)) marker = 1"
  by (simp_all add: ev samples)

lemma sample_multi_result:
  "processFile 1 sampleMultiLine
     = \<lparr>newContent = internalText (importPath 1) @ [10], modified = True, outcome = Fixed\<rparr>"
proof -
  have "sampleMultiLine \<noteq> internalText (importPath 1) @ [10]" by (simp add: ev samples)
  then show ?thesis
    unfolding processFile_def Let_def finish_def using sample_multi by simp
qed

lemma sample_multi_lines:
  "js ''import {'' \<in> set (linesOf sampleMultiLine)"
  "js ''import {'' \<notin> set (linesOf (internalText (importPath 1) @ [10]))"
  "js ''  internal'' \<in> set (linesOf sampleMultiLine)"
  "js ''  internal'' \<notin> set (linesOf (internalText (importPath 1) @ [10]))"
  by (simp_all add: ev samples)

lemma sample_multi_pieces:
  "source [Span (js ''import {\<newline>  internal\<newline>} from \"../_generated/api\";''), Keep 10]
     = sampleMultiLine"
  "spansOk internalImportRegex None
     [Span (js ''import {\<newline>  internal\<newline>} from \"../_generated/api\";''), Keep 10]"
  by (simp_all add: ev samples lastp_def)

subsection \<open>The branches of the loop body\<close>

lemma includes_str_self: "includes_str xs xs"
  unfolding includes_str_iff by (metis append_Nil append_Nil2)

lemma processFile_combined:
  assumes "\<not> includes_str c marker" "hasInternalImport c \<or> hasApiImport c"
    "test sameLineCombinedRegex c"
  shows "processFile d c = \<lparr>newContent = replace c combinedImportRegex (combinedText (importPath d)),
           modified = True, outcome = Fixed\<rparr>"
  using assms unfolding processFile_def finish_def by auto

lemma processFile_separate:
  assumes "\<not> includes_str c marker" "hasInternalImport c" "hasApiImport c"
    "\<not> test sameLineCombinedRegex c"
  shows "processFile d c =
     finish (replace (replace c internalImportRegex (internalText (importPath d)))
                apiImportRegex (apiText (importPath d)))
            (c \<noteq> replace c internalImportRegex (internalText (importPath d))
             \<or> replace c internalImportRegex (internalText (importPath d))
                 \<noteq> replace (replace c internalImportRegex (internalText (importPath d)))
                     apiImportRegex (apiText (importPath d)))"
  using assms unfolding processFile_def Let_def by simp

lemma processFile_nomatch:
  assumes "\<not> includes_str c marker" "\<not> hasInternalImport c" "\<not> hasApiImport c"
  shows "processFile d c = \<lparr>newContent = c, modified = False, outcome = SkippedNoMatch\<rparr>"
  using assms unfolding processFile_def by simp

section \<open>The claims\<close>

subsection \<open>Skipped files\<close>

text \<open>
  Claim C6 (no-op safety): a text without the marker in which neither detection pattern
  matches comes back byte for byte, with \<open>modified\<close> false, is counted as skipped for
  want of a match, and nothing is written.
\<close>

theorem no_op_safety:
  "\<not> includes_str c marker \<Longrightarrow> \<not> hasInternalImport c \<Longrightarrow> \<not> hasApiImport c \<Longrightarrow>
   processFile d c = \<lparr>newContent = c, modified = False, outcome = SkippedNoMatch\<rparr>
   \<and> written d c = c"
  by (simp add: processFile_def written_def)

theorem no_op_safety_witness:
  "\<not> includes_str (js ''import { query } from \"./_generated/server\";\<newline>export const x = 1;\<newline>'') marker
   \<and> \<not> hasInternalImport (js ''import { query } from \"./_generated/server\";\<newline>export const x = 1;\<newline>'')
   \<and> \<not> hasApiImport (js ''import { query } from \"./_generated/server\";\<newline>export const x = 1;\<newline>'')
   \<and> processFile 0 (js ''import { query } from \"./_generated/server\";\<newline>export const x = 1;\<newline>'')
       = \<lparr>newContent = js ''import { query } from \"./_generated/server\";\<newline>export const x = 1;\<newline>'',
          modified = False, outcome = SkippedNoMatch\<rparr>"
proof -
  let ?c = "js ''import { query } from \"./_generated/server\";\<newline>export const x = 1;\<newline>''"
  have h1: "\<not> includes_str ?c marker" by (simp add: ev)
  have h2: "\<not> hasInternalImport ?c" by (simp add: ev)
  have h3: "\<not> hasApiImport ?c" by (simp add: ev)
  show ?thesis using h1 h2 h3 no_op_safety[OF h1 h2 h3, of 0] by simp
qed

subsection \<open>The marker\<close>

text \<open>
  Claim C1 (idempotence): running the rewriter on its own output gives that output
  again, for the text it computes and for the file on disk. When the first run
  reports \<open>modified\<close>, its output has the marker \<open>Bypass TS2589\<close>, so the second run
  skips it as already patched and returns it unchanged; and a text that has the marker
  is returned unchanged without any matching.
\<close>

theorem rewrite_idempotent:
  "newContent (processFile d (newContent (processFile d c))) = newContent (processFile d c)
   \<and> written d (written d c) = written d c
   \<and> (modified (processFile d c) \<longrightarrow>
        includes_str (newContent (processFile d c)) marker
        \<and> processFile d (newContent (processFile d c))
            = \<lparr>newContent = newContent (processFile d c), modified = False,
               outcome = SkippedAlreadyPatched\<rparr>)
   \<and> (includes_str c marker \<longrightarrow>
        processFile d c = \<lparr>newContent = c, modified = False, outcome = SkippedAlreadyPatched\<rparr>)"
proof -
  let ?r = "processFile d c"
  have m: "modified ?r \<Longrightarrow> includes_str (newContent ?r) marker"
    by (rule processFile_modified_marker)
  have m2: "modified ?r \<Longrightarrow> processFile d (newContent ?r)
            = \<lparr>newContent = newContent ?r, modified = False, outcome = SkippedAlreadyPatched\<rparr>"
    using m processFile_patched by blast
  have u: "\<not> modified ?r \<Longrightarrow> newContent ?r = c" by (rule processFile_unmodified)
  have a: "newContent (processFile d (newContent ?r)) = newContent ?r"
  proof (cases "modified ?r")
    case True then show ?thesis using m2 by simp
  next
    case False then show ?thesis using u by simp
  qed
  have b: "written d (written d c) = written d c"
  proof (cases "modified ?r")
    case True
    then have "written d c = newContent ?r" by (simp add: written_def)
    then show ?thesis using m2[OF True] by (simp add: written_def)
  next
    case False
    then have "written d c = c" by (simp add: written_def)
    then show ?thesis by simp
  qed
  show ?thesis using a b m m2 processFile_patched by blast
qed

theorem rewrite_idempotent_witness:
  "modified (processFile 1 (js ''import { internal } from \"../_generated/api\";''))
   \<and> includes_str (newContent (processFile 1 (js ''import { internal } from \"../_generated/api\";''))) marker
   \<and> processFile 1 (newContent (processFile 1 (js ''import { internal } from \"../_generated/api\";'')))
       = \<lparr>newContent = internalText (importPath 1), modified = False,
          outcome = SkippedAlreadyPatched\<rparr>
   \<and> includes_str (js ''// Bypass TS2589 by hand\<newline>import { api } from \"./_generated/api\";'') marker
   \<and> processFile 0 (js ''// Bypass TS2589 by hand\<newline>import { api } from \"./_generated/api\";'')
       = \<lparr>newContent = js ''// Bypass TS2589 by hand\<newline>import { api } from \"./_generated/api\";'',
          modified = False, outcome = SkippedAlreadyPatched\<rparr>"
proof -
  let ?c = "js ''import { internal } from \"../_generated/api\";''"
  let ?e = "js ''// Bypass TS2589 by hand\<newline>import { api } from \"./_generated/api\";''"
  have m: "modified (processFile 1 ?c)" unfolding sample_internal by simp
  have n: "newContent (processFile 1 ?c) = internalText (importPath 1)"
    unfolding sample_internal by simp
  have e: "includes_str ?e marker" by (simp add: ev)
  show ?thesis
    using m e rewrite_idempotent[of 1 ?c] rewrite_idempotent[of 0 ?e] unfolding n by simp
qed

text \<open>
  Claim C5 (marker invariant): after one run the marker is in the resulting text exactly
  when this run fixed the file or the text had the marker before; the same holds for
  the file on disk.
\<close>

theorem marker_invariant:
  "(includes_str (newContent (processFile d c)) marker
      \<longleftrightarrow> modified (processFile d c) \<or> includes_str c marker)
   \<and> (includes_str (written d c) marker
      \<longleftrightarrow> modified (processFile d c) \<or> includes_str c marker)"
proof (cases "modified (processFile d c)")
  case True then show ?thesis using processFile_modified_marker by (simp add: written_def)
next
  case False then show ?thesis using processFile_unmodified by (simp add: written_def)
qed

text \<open>
  Claim C7 (the flag is sound): for a text without the marker, \<open>modified\<close> is true
  exactly when the resulting text differs from the text read, in every branch, the
  same-line combined branch among them.
\<close>

theorem modified_flag_sound:
  "\<not> includes_str c marker \<Longrightarrow>
   modified (processFile d c) \<longleftrightarrow> newContent (processFile d c) \<noteq> c"
  using processFile_modified_marker[of d c] processFile_unmodified[of d c] by metis

theorem modified_flag_sound_witness:
  "\<not> includes_str (js ''import { internal } from \"../_generated/api\";'') marker
   \<and> modified (processFile 1 (js ''import { internal } from \"../_generated/api\";''))
   \<and> newContent (processFile 1 (js ''import { internal } from \"../_generated/api\";''))
       \<noteq> js ''import { internal } from \"../_generated/api\";''
   \<and> \<not> includes_str sampleDefault marker \<and> hasInternalImport sampleDefault
   \<and> \<not> test internalImportRegex sampleDefault
   \<and> \<not> modified (processFile 1 sampleDefault)
   \<and> newContent (processFile 1 sampleDefault) = sampleDefault"
proof -
  have d: "\<not> modified (processFile 1 sampleDefault)"
    unfolding processFile_def finish_def Let_def using sample_default by simp
  have a: "\<not> includes_str (js ''import { internal } from \"../_generated/api\";'') marker
   \<and> modified (processFile 1 (js ''import { internal } from \"../_generated/api\";''))
   \<and> newContent (processFile 1 (js ''import { internal } from \"../_generated/api\";''))
       \<noteq> js ''import { internal } from \"../_generated/api\";''"
    using modified_flag_sound[OF sample_internal_unpatched, of 1] sample_internal_unpatched
      sample_internal_changed
    unfolding sample_internal by simp
  show ?thesis
    using a d modified_flag_sound[OF sample_default(1), of 1] sample_default by blast
qed

subsection \<open>Detection\<close>

text \<open>
  Claim C2 (detection): the claim reads the detection patterns as finding \<open>internal\<close>
  (or \<open>api\<close>) anywhere in the brace list. The patterns ask for the name right behind
  the opening brace: in \<open>import { foo, internal } from "../_generated/api";\<close> neither
  detection pattern matches, although the replacement pattern for \<open>internal\<close> matches
  the line, and the file is skipped. So is \<open>import { foo, internal, api } ...\<close>, which
  the same-line combined pattern matches.
\<close>

theorem detection_first_name_only:
  "\<not> hasInternalImport sampleLater \<and> \<not> hasApiImport sampleLater
   \<and> test internalImportRegex sampleLater
   \<and> processFile 1 sampleLater
       = \<lparr>newContent = sampleLater, modified = False, outcome = SkippedNoMatch\<rparr>
   \<and> \<not> hasInternalImport sampleLaterBoth \<and> \<not> hasApiImport sampleLaterBoth
   \<and> test sameLineCombinedRegex sampleLaterBoth
   \<and> processFile 1 sampleLaterBoth
       = \<lparr>newContent = sampleLaterBoth, modified = False, outcome = SkippedNoMatch\<rparr>"
  using sample_later processFile_nomatch[OF sample_later(1,2,3), of 1]
    sample_later_both processFile_nomatch[OF sample_later_both(1,2,3), of 1]
  by simp

subsection \<open>The same-line combined rule\<close>

text \<open>
  Once a detection pattern has matched in a text without the marker, a match of the
  same-line combined pattern decides the branch, whatever else the text imports: the
  result is the text with every match of the combined pattern replaced by the block of
  the two declarations, it has at least one such block, the block has the marker once,
  and the file counts as fixed. (A match begins with \<open>import\<close> at the start of a line and
  ends at the end of a line.)
\<close>

lemma combined_rule_applied:
  assumes "\<not> includes_str c marker" and "hasInternalImport c \<or> hasApiImport c"
    and "test sameLineCombinedRegex c"
  shows "processFile d c
           = \<lparr>newContent = replace c combinedImportRegex (combinedText (importPath d)),
              modified = True, outcome = Fixed\<rparr>
         \<and> (\<exists>ps. source ps = c \<and> spansOk combinedImportRegex None ps \<and> hasSpan ps
                \<and> newContent (processFile d c) = target (combinedText (importPath d)) ps)
         \<and> includes_str (newContent (processFile d c)) (combinedText (importPath d))
         \<and> countOcc (combinedText (importPath d)) marker = 1"
proof -
  let ?t = "combinedText (importPath d)"
  note pf = processFile_combined[OF assms, of d]
  have t: "test combinedImportRegex c" using assms(3) by (simp add: combinedImportRegex_def)
  obtain ps where "source ps = c" "replace c combinedImportRegex ?t = target ?t ps"
      "spansOk combinedImportRegex None ps" "hasSpan ps"
    using replace_pieces[OF wholeLines_rules(1), of c ?t] t by blast
  moreover have "includes_str (replace c combinedImportRegex ?t) ?t"
    using replace_includes[OF t includes_str_self] .
  ultimately show ?thesis unfolding pf using combinedText_marker_once[of d] by auto
qed

lemma combined_rule_samples:
  "\<not> includes_str sampleCombined marker \<and> hasApiImport sampleCombined
   \<and> test sameLineCombinedRegex sampleCombined
   \<and> processFile 0 sampleCombined
       = \<lparr>newContent = combinedText (importPath 0), modified = True, outcome = Fixed\<rparr>
   \<and> includes_str (combinedText (importPath 0))
       (js ''const internal = require('./_generated/api.js').internal as any;'')
   \<and> includes_str (combinedText (importPath 0))
       (js ''const api = require('./_generated/api.js').api as any;'')
   \<and> \<not> includes_str (combinedText (importPath 0)) sampleCombined
   \<and> countOcc (combinedText (importPath 0)) marker = 1
   \<and> hasInternalImport samplePrecedence \<and> hasApiImport samplePrecedence
   \<and> processFile 0 samplePrecedence
       = \<lparr>newContent = combinedText (importPath 0) @
            js ''\<newline>import { internal } from \"./_generated/api\";\<newline>import { api } from \"./_generated/api\";\<newline>'',
          modified = True, outcome = Fixed\<rparr>
   \<and> processFile 2 sampleNonAdjacent
       = \<lparr>newContent = combinedText (importPath 2), modified = True, outcome = Fixed\<rparr>"
proof -
  have c: "hasInternalImport sampleNonAdjacent \<or> hasApiImport sampleNonAdjacent"
    using sample_non_adjacent(2) by simp
  have a: "hasInternalImport sampleCombined \<or> hasApiImport sampleCombined"
    using sample_combined(3) by simp
  have b: "hasInternalImport samplePrecedence \<or> hasApiImport samplePrecedence"
    using sample_precedence(3) by simp
  show ?thesis
    using combined_rule_applied[OF sample_combined(1) a sample_combined(4), of 0]
      combined_rule_applied[OF sample_precedence(1) b sample_precedence(4), of 0]
      combined_rule_applied[OF sample_non_adjacent(1) c sample_non_adjacent(3), of 2]
      sample_combined sample_precedence sample_non_adjacent combined_block
    by simp
qed

text \<open>
  Claim C3 (same-line combined rule): the claim has every import line whose brace list
  holds both \<open>internal\<close> and \<open>api\<close>, in any order and next to any other names, replaced
  by the two declarations. The script reaches the combined rule only behind the detection
  gate of line 65, and the detection patterns find a name only right behind the opening
  brace. The file \<open>import { foo, api, internal } from "./_generated/api.js";\<close> has no
  marker, the same-line combined pattern matches its one line, and replacing the matches
  of the combined pattern would leave exactly the block of the two declarations; but
  neither detection pattern matches, so the file is skipped for want of a match and
  stays as it is. Without \<open>foo\<close> the same line is replaced by the block.
\<close>

theorem same_line_combined_skipped:
  "\<not> includes_str sampleCombinedLater marker
   \<and> test sameLineCombinedRegex sampleCombinedLater
   \<and> replace sampleCombinedLater combinedImportRegex (combinedText (importPath 0))
       = combinedText (importPath 0)
   \<and> \<not> hasInternalImport sampleCombinedLater \<and> \<not> hasApiImport sampleCombinedLater
   \<and> processFile 0 sampleCombinedLater
       = \<lparr>newContent = sampleCombinedLater, modified = False, outcome = SkippedNoMatch\<rparr>
   \<and> written 0 sampleCombinedLater = sampleCombinedLater
   \<and> processFile 0 sampleCombined
       = \<lparr>newContent = combinedText (importPath 0), modified = True, outcome = Fixed\<rparr>"
proof -
  have a: "hasInternalImport sampleCombined \<or> hasApiImport sampleCombined"
    using sample_combined(3) by simp
  have b: "processFile 0 sampleCombinedLater
       = \<lparr>newContent = sampleCombinedLater, modified = False, outcome = SkippedNoMatch\<rparr>"
    using processFile_nomatch[OF sample_combined_later(1,2,3), of 0] .
  have c: "written 0 sampleCombinedLater = sampleCombinedLater"
    unfolding written_def b by simp
  show ?thesis
    using sample_combined_later b c
      processFile_combined[OF sample_combined(1) a sample_combined(4), of 0] sample_combined(5)
    by simp
qed

subsection \<open>The separate-line rule\<close>

text \<open>
  Claim C4, as amended: for a text without the marker in which both detection patterns
  match and the same-line combined pattern matches nowhere, the result is the text after two
  passes, the first replacing every match of the \<open>internal\<close> pattern by the \<open>internal\<close>
  declaration, the second every match of the \<open>api\<close> pattern by the \<open>api\<close> declaration.
  A pass changes the text exactly when its pattern matches, so a pattern that matches
  nothing leaves the text to the other pass alone, and \<open>modified\<close> is true exactly when
  at least one pass changed the text.
\<close>

theorem separate_lines:
  assumes "\<not> includes_str c marker" and "hasInternalImport c" and "hasApiImport c"
    and "\<not> test sameLineCombinedRegex c"
    and "n1 = replace c internalImportRegex (internalText (importPath d))"
    and "n2 = replace n1 apiImportRegex (apiText (importPath d))"
  shows "newContent (processFile d c) = n2
         \<and> (modified (processFile d c) \<longleftrightarrow> c \<noteq> n1 \<or> n1 \<noteq> n2)
         \<and> (c \<noteq> n1 \<longleftrightarrow> test internalImportRegex c)
         \<and> (n1 \<noteq> n2 \<longleftrightarrow> test apiImportRegex n1)
         \<and> (\<exists>ps. source ps = c \<and> spansOk internalImportRegex None ps
                \<and> n1 = target (internalText (importPath d)) ps)
         \<and> (\<exists>ps. source ps = n1 \<and> spansOk apiImportRegex None ps
                \<and> n2 = target (apiText (importPath d)) ps)"
proof -
  let ?p = "importPath d"
  note pf = processFile_separate[OF assms(1-4), of d, folded assms(5), folded assms(6)]
  have 1: "c \<noteq> n1 \<longleftrightarrow> test internalImportRegex c"
    unfolding assms(5)
    using replace_changes_iff[OF wholeLines_rules(2), of "internalText ?p" c] texts_head[of ?p]
    by metis
  have 2: "n1 \<noteq> n2 \<longleftrightarrow> test apiImportRegex n1"
    unfolding assms(6)
    using replace_changes_iff[OF wholeLines_rules(3), of "apiText ?p" n1] texts_head[of ?p]
    by metis
  have 3: "\<exists>ps. source ps = c \<and> spansOk internalImportRegex None ps
                \<and> n1 = target (internalText ?p) ps"
    unfolding assms(5) using replace_pieces[OF wholeLines_rules(2), of c] by blast
  have 4: "\<exists>ps. source ps = n1 \<and> spansOk apiImportRegex None ps
                \<and> n2 = target (apiText ?p) ps"
    unfolding assms(6) using replace_pieces[OF wholeLines_rules(3), of n1] by blast
  show ?thesis using 1 2 3 4 unfolding pf finish_def by simp
qed

theorem separate_lines_witness:
  "\<not> includes_str sampleSeparate marker \<and> hasInternalImport sampleSeparate
   \<and> hasApiImport sampleSeparate \<and> \<not> test sameLineCombinedRegex sampleSeparate
   \<and> processFile 1 sampleSeparate
       = \<lparr>newContent = internalText (importPath 1) @ [10] @ apiText (importPath 1) @ [10],
          modified = True, outcome = Fixed\<rparr>
   \<and> \<not> includes_str sampleEdited marker \<and> hasInternalImport sampleEdited
   \<and> hasApiImport sampleEdited \<and> \<not> test sameLineCombinedRegex sampleEdited
   \<and> \<not> test apiImportRegex sampleEdited
   \<and> processFile 1 sampleEdited
       = \<lparr>newContent = internalText (importPath 1) @
            js ''\<newline>import client, { api } from \"../_generated/api\";\<newline>'',
          modified = True, outcome = Fixed\<rparr>"
proof -
  let ?i = "internalText (importPath 1)"
  let ?a = "apiText (importPath 1)"
  have s1: "replace sampleSeparate internalImportRegex ?i
              = ?i @ js ''\<newline>import { api } from \"../_generated/api\";\<newline>''"
    by (rule sample_separate(5))
  have s2: "replace (?i @ js ''\<newline>import { api } from \"../_generated/api\";\<newline>'')
              apiImportRegex ?a = ?i @ [10] @ ?a @ [10]"
    by (rule sample_separate2)
  have e1: "replace sampleEdited internalImportRegex ?i
              = ?i @ js ''\<newline>import client, { api } from \"../_generated/api\";\<newline>''"
    by (rule sample_edited(6))
  have e2: "replace (?i @ js ''\<newline>import client, { api } from \"../_generated/api\";\<newline>'')
              apiImportRegex ?a
            = ?i @ js ''\<newline>import client, { api } from \"../_generated/api\";\<newline>''"
    using sample_edited2 by (rule replace_no_match)
  have m1: "modified (processFile 1 sampleSeparate)"
    using separate_lines[OF sample_separate(1-4) refl refl, of 1] sample_separate(1)
      processFile_unmodified[of 1 sampleSeparate] unfolding s1 s2
    by (metis includes_str_mono internalText_marker append_Nil)
  have m2: "modified (processFile 1 sampleEdited)"
    using separate_lines[OF sample_edited(1-4) refl refl, of 1] sample_edited(1)
      processFile_unmodified[of 1 sampleEdited] unfolding e1 e2
    by (metis includes_str_mono internalText_marker append_Nil)
  have r1: "newContent (processFile 1 sampleSeparate) = ?i @ [10] @ ?a @ [10]"
    using separate_lines[OF sample_separate(1-4) refl refl, of 1] unfolding s1 s2 by simp
  have r2: "newContent (processFile 1 sampleEdited)
             = ?i @ js ''\<newline>import client, { api } from \"../_generated/api\";\<newline>''"
    using separate_lines[OF sample_edited(1-4) refl refl, of 1] unfolding e1 e2 by simp
  have o: "outcome (processFile d c) = (if modified (processFile d c) then Fixed
            else if includes_str c marker then SkippedAlreadyPatched else SkippedNoMatch)" for d c
    unfolding processFile_def finish_def Let_def by simp
  have eqI: "r = \<lparr>newContent = n, modified = True, outcome = Fixed\<rparr>"
    if "newContent r = n" "modified r" "outcome r = Fixed" for r :: result and n
    using that by (cases r) simp
  show ?thesis
    using sample_separate(1-4) sample_edited(1-5)
      eqI[OF r1 m1] eqI[OF r2 m2] o[of 1 sampleSeparate] o[of 1 sampleEdited] m1 m2
    by simp
qed

text \<open>
  Claim C4, as stated, fails on a text that has the marker, which line 50 skips, and on
  a text in which the combined pattern matches a span of several lines: no single line
  matches it, but the script takes the combined branch and leaves the separate imports
  of \<open>internal\<close> and of \<open>api\<close> as they are.
\<close>

theorem separate_lines_counterexample:
  "hasInternalImport samplePatchedSeparate \<and> hasApiImport samplePatchedSeparate
   \<and> \<not> test sameLineCombinedRegex samplePatchedSeparate
   \<and> test internalImportRegex samplePatchedSeparate
   \<and> test apiImportRegex samplePatchedSeparate
   \<and> processFile 1 samplePatchedSeparate
       = \<lparr>newContent = samplePatchedSeparate, modified = False,
          outcome = SkippedAlreadyPatched\<rparr>
   \<and> \<not> includes_str sampleSpanning marker
   \<and> hasInternalImport sampleSpanning \<and> hasApiImport sampleSpanning
   \<and> list_all (\<lambda>l. \<not> test sameLineCombinedRegex l) (linesOf sampleSpanning)
   \<and> processFile 1 sampleSpanning
       = \<lparr>newContent = js ''import { internal } from \"../_generated/api\";\<newline>import { api } from \"../_generated/api\";\<newline>''
            @ combinedText (importPath 1),
          modified = True, outcome = Fixed\<rparr>"
proof -
  have "hasInternalImport sampleSpanning \<or> hasApiImport sampleSpanning"
    using sample_spanning(2) by simp
  from processFile_combined[OF sample_spanning(1) this sample_spanning(4), of 1]
  have "processFile 1 sampleSpanning
       = \<lparr>newContent = js ''import { internal } from \"../_generated/api\";\<newline>import { api } from \"../_generated/api\";\<newline>''
            @ combinedText (importPath 1),
          modified = True, outcome = Fixed\<rparr>"
    unfolding sample_spanning(6) .
  then show ?thesis
    using sample_patched processFile_patched[OF sample_patched(3), of 1] sample_spanning
    by simp
qed

subsection \<open>Names that only contain \<open>internal\<close> or \<open>api\<close>\<close>




subsection \<open>The two versions\<close>

text \<open>
  Claim C9 (the versions agree outside the added tolerances): they do not. On
  \<open>import { api, internal } from "./_generated/api.js";\<close>, which has no \<open>type\<close>, no
  trailing comment and both names on one line, version one takes the \<open>api\<close> branch and
  writes the \<open>api\<close> declaration alone, version two writes both declarations. On an
  import followed by an empty line, the \<open>\s*$\<close> of version one takes one line
  terminator into the match, the \<open>.*$\<close> of version two none.
\<close>

theorem versions_disagree:
  "processFile_v1 0 sampleCombined
     = \<lparr>newContent = apiText (importPath 0), modified = True, outcome = Fixed\<rparr>
   \<and> processFile 0 sampleCombined
     = \<lparr>newContent = combinedText (importPath 0), modified = True, outcome = Fixed\<rparr>
   \<and> apiText (importPath 0) \<noteq> combinedText (importPath 0)
   \<and> \<not> includes_str (apiText (importPath 0)) (js ''const internal'')
   \<and> newContent (processFile_v1 1 sampleBlank)
     = internalText (importPath 1) @ js ''\<newline>export const x = 1;\<newline>''
   \<and> newContent (processFile 1 sampleBlank)
     = internalText (importPath 1) @ js ''\<newline>\<newline>export const x = 1;\<newline>''"
proof -
  have 1: "processFile_v1 0 sampleCombined
     = \<lparr>newContent = apiText (importPath 0), modified = True, outcome = Fixed\<rparr>"
    unfolding processFile_v1_def Let_def finish_def using sample_combined by simp
  have 2: "processFile 0 sampleCombined
     = \<lparr>newContent = combinedText (importPath 0), modified = True, outcome = Fixed\<rparr>"
    unfolding processFile_def Let_def finish_def combinedImportRegex_def
    using sample_combined[unfolded combinedImportRegex_def] by simp
  have 3: "apiText (importPath 0) \<noteq> combinedText (importPath 0)"
    "\<not> includes_str (apiText (importPath 0)) (js ''const internal'')"
    by (simp_all add: ev)
  have 4: "newContent (processFile_v1 1 sampleBlank)
     = internalText (importPath 1) @ js ''\<newline>export const x = 1;\<newline>''"
    unfolding processFile_v1_def Let_def finish_def using sample_blank by simp
  have 5: "newContent (processFile 1 sampleBlank)
     = internalText (importPath 1) @ js ''\<newline>\<newline>export const x = 1;\<newline>''"
    unfolding processFile_def Let_def finish_def using sample_blank by simp
  show ?thesis using 1 2 3 4 5 by simp
qed

subsection \<open>The frame\<close>

text \<open>
  Claim C10, as stated, fails on an import that spans several lines: the lines
  \<open>import {\<close> and \<open>  internal\<close> match no replacement pattern, and neither is a line of
  the result.
\<close>

theorem frame_counterexample:
  "js ''import {'' \<in> set (linesOf sampleMultiLine)
   \<and> \<not> test combinedImportRegex (js ''import {'')
   \<and> \<not> test internalImportRegex (js ''import {'')
   \<and> \<not> test apiImportRegex (js ''import {'')
   \<and> js ''import {'' \<notin> set (linesOf (newContent (processFile 1 sampleMultiLine)))
   \<and> js ''  internal'' \<in> set (linesOf sampleMultiLine)
   \<and> \<not> test combinedImportRegex (js ''  internal'')
   \<and> \<not> test internalImportRegex (js ''  internal'')
   \<and> \<not> test apiImportRegex (js ''  internal'')
   \<and> js ''  internal'' \<notin> set (linesOf (newContent (processFile 1 sampleMultiLine)))"
  unfolding sample_multi_result using sample_multi sample_multi_lines by simp

text \<open>
  Claim C10, as amended: the result arises from the text in two passes (either may
  replace nothing). A pass belongs to one replacement pattern and its generated text;
  it cuts its subject into code units it copies, in their order, and spans it replaces
  by the generated text. Every span is a match of the pattern that begins with
  \<open>import\<close> at the start of a line and ends at the end of a line; it may cover
  several lines.
\<close>

theorem frame_property:
  "\<exists>r1 t1 ps1 r2 t2 ps2.
     (r1, t1) \<in> set (rules d) \<and> (r2, t2) \<in> set (rules d)
     \<and> source ps1 = c \<and> spansOk r1 None ps1
     \<and> source ps2 = target t1 ps1 \<and> spansOk r2 None ps2
     \<and> newContent (processFile d c) = target t2 ps2"
proof -
  let ?p = "importPath d"
  have pass: "\<exists>ps. source ps = s \<and> spansOk r None ps \<and> replace s r t = target t ps"
    if "wholeLines r" for r s t
    using replace_pieces[OF that, of s t] by blast
  have idle: "\<exists>ps. source ps = s \<and> spansOk r None ps \<and> s = target t ps" for r s t
    using keep_all[of s t r None] by metis
  have two: "\<exists>r1 t1 ps1 r2 t2 ps2.
     (r1, t1) \<in> set (rules d) \<and> (r2, t2) \<in> set (rules d)
     \<and> source ps1 = c \<and> spansOk r1 None ps1
     \<and> source ps2 = target t1 ps1 \<and> spansOk r2 None ps2
     \<and> out = target t2 ps2"
    if "(r1, t1) \<in> set (rules d)" "(r2, t2) \<in> set (rules d)"
       "\<exists>ps. source ps = c \<and> spansOk r1 None ps \<and> mid = target t1 ps"
       "\<exists>ps. source ps = mid \<and> spansOk r2 None ps \<and> out = target t2 ps"
    for r1 t1 r2 t2 mid out
    using that by blast
  have ri: "(internalImportRegex, internalText ?p) \<in> set (rules d)"
    and ra: "(apiImportRegex, apiText ?p) \<in> set (rules d)"
    and rc: "(combinedImportRegex, combinedText ?p) \<in> set (rules d)"
    by (simp_all add: rules_def)
  let ?n1 = "replace c internalImportRegex (internalText ?p)"
  have same: "newContent (processFile d c) = c \<Longrightarrow> ?thesis"
    using two[of _ _ _ _ c c, OF ri ra idle idle] by simp
  have comb: "newContent (processFile d c) = replace c combinedImportRegex (combinedText ?p)
              \<Longrightarrow> ?thesis"
    using two[OF rc ra pass[OF wholeLines_rules(1)] idle] by simp
  have sep: "newContent (processFile d c) = replace ?n1 apiImportRegex (apiText ?p)
              \<Longrightarrow> ?thesis"
    using two[OF ri ra pass[OF wholeLines_rules(2)] pass[OF wholeLines_rules(3)]] by simp
  have int: "newContent (processFile d c) = ?n1 \<Longrightarrow> ?thesis"
    using two[OF ri ra pass[OF wholeLines_rules(2)] idle] by simp
  have api: "newContent (processFile d c) = replace c apiImportRegex (apiText ?p)
              \<Longrightarrow> ?thesis"
    using two[OF ra ra pass[OF wholeLines_rules(3)] idle] by simp
  have "newContent (processFile d c) = c
      \<or> newContent (processFile d c) = replace c combinedImportRegex (combinedText ?p)
      \<or> newContent (processFile d c) = replace ?n1 apiImportRegex (apiText ?p)
      \<or> newContent (processFile d c) = ?n1
      \<or> newContent (processFile d c) = replace c apiImportRegex (apiText ?p)"
    unfolding processFile_def finish_def Let_def by simp
  then show ?thesis using same comb sep int api by blast
qed

theorem frame_property_witness:
  "(\<exists>r1 t1 ps1 r2 t2 ps2.
     (r1, t1) \<in> set (rules 1) \<and> (r2, t2) \<in> set (rules 1)
     \<and> source ps1 = sampleMultiLine \<and> spansOk r1 None ps1
     \<and> source ps2 = target t1 ps1 \<and> spansOk r2 None ps2
     \<and> newContent (processFile 1 sampleMultiLine) = target t2 ps2)
   \<and> source [Span (js ''import {\<newline>  internal\<newline>} from \"../_generated/api\";''), Keep 10]
       = sampleMultiLine
   \<and> spansOk internalImportRegex None
       [Span (js ''import {\<newline>  internal\<newline>} from \"../_generated/api\";''), Keep 10]
   \<and> newContent (processFile 1 sampleMultiLine)
       = target (internalText (importPath 1))
           [Span (js ''import {\<newline>  internal\<newline>} from \"../_generated/api\";''), Keep 10]"
  using frame_property[of 1 sampleMultiLine] sample_multi_pieces
  unfolding sample_multi_result by simp

end
